theory Spec2Isabelle
  imports Complex_Main
begin

section \<open>JavaScript strings\<close>

text \<open>
  A JavaScript string is a sequence of UTF-16 code units. A code unit is modelled as a
  natural number and a string as the list of its code units, so that \<open>length\<close> is the
  \<^verbatim>\<open>.length\<close> of the source and the character classes of the regular expressions
  (\<^verbatim>\<open>\s\<close>, \<^verbatim>\<open>\d\<close>) are predicates on code units. \<open>js\<close> turns an ASCII literal into
  such a string.
\<close>

type_synonym jschar = nat
type_synonym jsstring = "jschar list"

definition js :: "string \<Rightarrow> jsstring" where
  "js s = map of_char s"

text \<open>\<^verbatim>\<open>\d\<close> without the unicode flag: the ten ASCII digits.\<close>

definition is_digit :: "jschar \<Rightarrow> bool" where
  "is_digit c = (48 \<le> c \<and> c \<le> 57)"

text \<open>
  \<^verbatim>\<open>\s\<close>: the WhiteSpace and LineTerminator code points of ECMAScript (tab, LF, VT, FF,
  CR, space, NBSP, U+1680, U+2000 to U+200A, U+2028, U+2029, U+202F, U+205F, U+3000,
  U+FEFF).
\<close>

definition is_space :: "jschar \<Rightarrow> bool" where
  "is_space c = (c \<in> set [9, 10, 11, 12, 13, 32, 160, 5760, 8232, 8233, 8239, 8287, 12288, 65279]
                  \<or> (8192 \<le> c \<and> c \<le> 8202))"

text \<open>\<^verbatim>\<open>s.replace(/\s+/g, '')\<close>: every white-space code unit is removed.\<close>

definition strip_ws :: "jsstring \<Rightarrow> jsstring" where
  "strip_ws s = filter (\<lambda>c. \<not> is_space c) s"

text \<open>\<^verbatim>\<open>/^\d+$/.test(s)\<close>: non-empty and digits only.\<close>

definition all_digits :: "jsstring \<Rightarrow> bool" where
  "all_digits s = (s \<noteq> [] \<and> list_all is_digit s)"

text \<open>\<^verbatim>\<open>s.startsWith('0')\<close> and \<^verbatim>\<open>s.replace(/^0+/, '')\<close>.\<close>

definition startsWith0 :: "jsstring \<Rightarrow> bool" where
  "startsWith0 s = (case s of [] \<Rightarrow> False | c # _ \<Rightarrow> c = 48)"

definition strip_zeros :: "jsstring \<Rightarrow> jsstring" where
  "strip_zeros s = dropWhile (\<lambda>c. c = 48) s"

text \<open>
  \<^verbatim>\<open>s[0]\<close>: the string of the first code unit. On the empty string the source yields
  \<^verbatim>\<open>undefined\<close>, which is modelled by the empty list (it is no one-character string).
\<close>

definition char0 :: "jsstring \<Rightarrow> jsstring" where
  "char0 s = take 1 s"

text \<open>\<^verbatim>\<open>s.includes(sub)\<close>.\<close>

fun js_includes :: "jsstring \<Rightarrow> jsstring \<Rightarrow> bool" where
  "js_includes [] sub = (sub = [])"
| "js_includes (c # cs) sub = (take (length sub) (c # cs) = sub \<or> js_includes cs sub)"

text \<open>The decimal rendering of a non-negative integer inside a template literal.\<close>

function decimal :: "nat \<Rightarrow> jsstring" where
  "decimal n = (if n < 10 then [48 + n] else decimal (n div 10) @ [48 + n mod 10])"
  by pat_completeness auto
termination
  by (relation "measure id") auto

declare decimal.simps [simp del]

section \<open>Delivery notes: \<^verbatim>\<open>validateDeliveryNotes\<close> (app.js)\<close>

record entry =
  e_value :: jsstring
  e_reason :: jsstring

record correction =
  c_original :: jsstring
  c_corrected :: jsstring
  c_confidence :: jsstring
  c_reason :: jsstring

record duplicate =
  d_value :: jsstring
  d_count :: int
  d_reason :: jsstring

text \<open>The result of \<^verbatim>\<open>extractPotentialDeliveryNotes\<close>, the input of the validation.\<close>

record extraction =
  x_unique :: "jsstring list"
  x_duplicates :: "duplicate list"
  x_totalCount :: int
  x_occurrenceCount :: "jsstring \<rightharpoonup> int"

record results =
  accepted :: "jsstring list"
  excluded :: "entry list"
  invalid :: "entry list"
  autoCorrections :: "correction list"
  duplicates :: "duplicate list"
  uniqueCount :: int
  duplicateCount :: int
  totalOccurrences :: int

text \<open>
  The function's local variables beside \<^verbatim>\<open>results\<close>: the set \<^verbatim>\<open>seen\<close> and the arrays
  \<^verbatim>\<open>tempAccepted\<close> and \<^verbatim>\<open>pending7Digit\<close>.
\<close>

record vstate = results +
  seen :: "jsstring set"
  tempAccepted :: "jsstring list"
  pending7Digit :: "jsstring list"

definition init_state :: "extraction \<Rightarrow> vstate" where
  "init_state er = \<lparr> accepted = [], excluded = [], invalid = [], autoCorrections = [],
     duplicates = [], uniqueCount = 0, duplicateCount = 0, totalOccurrences = x_totalCount er,
     seen = {}, tempAccepted = [], pending7Digit = [] \<rparr>"

text \<open>\<^verbatim>\<open>occurrenceCount[k] || 1\<close>: a missing or zero count reads as 1.\<close>

definition count_or_1 :: "(jsstring \<rightharpoonup> int) \<Rightarrow> jsstring \<Rightarrow> int" where
  "count_or_1 oc k = (case oc k of None \<Rightarrow> 1 | Some n \<Rightarrow> if n = 0 then 1 else n)"

text \<open>
  The body shared by the three leading-zero branches once the stripped value has length 8:
  a new value is recorded as a correction and accepted, a value already seen is logged as
  a duplicate. The branches differ in the reason of the correction and in the count of the
  duplicate, which are the parameters.
\<close>

definition zero_fix :: "jsstring \<Rightarrow> jsstring \<Rightarrow> jsstring \<Rightarrow> int \<Rightarrow> vstate \<Rightarrow> vstate" where
  "zero_fix cleaned stripped why cnt s =
     (if stripped \<notin> seen s then
        s\<lparr> seen := insert stripped (seen s),
           autoCorrections := autoCorrections s @
             [\<lparr> c_original = cleaned, c_corrected = stripped, c_confidence = js ''high'',
                c_reason = why \<rparr>],
           accepted := accepted s @ [stripped] \<rparr>
      else
        s\<lparr> duplicates := duplicates s @
             [\<lparr> d_value = stripped, d_count = cnt,
                d_reason = js ''Corrected from '' @ cleaned @ js '', already exists'' \<rparr>],
           duplicateCount := duplicateCount s + 1 \<rparr>)"

text \<open>One iteration of the loop over \<^verbatim>\<open>rawNotes\<close>, branch by branch.\<close>

definition classify :: "(jsstring \<rightharpoonup> int) \<Rightarrow> vstate \<Rightarrow> jsstring \<Rightarrow> vstate" where
  "classify oc s note =
     (let cleaned = strip_ws note; len = length cleaned; stripped = strip_zeros cleaned in
      if cleaned = [] then s
      else if \<not> all_digits cleaned then
        s\<lparr> invalid := invalid s @
             [\<lparr> e_value = cleaned, e_reason = js ''Contains non-digit characters'' \<rparr>] \<rparr>
      else if len = 8 then
        s\<lparr> seen := insert cleaned (seen s), tempAccepted := tempAccepted s @ [cleaned] \<rparr>
      else if len = 9 \<and> startsWith0 cleaned then
        (if length stripped = 8 then
           zero_fix cleaned stripped (js ''Removed leading zero'') (count_or_1 oc stripped + 1) s
         else
           s\<lparr> excluded := excluded s @
                [\<lparr> e_value = cleaned,
                   e_reason = js ''9 digits (excluded - likely Transport ID)'' \<rparr>] \<rparr>)
      else if len = 10 \<and> startsWith0 cleaned then
        (if length stripped = 8 then
           zero_fix cleaned stripped
             (js ''Removed '' @ decimal (len - 8) @ js '' leading zero(s)'')
             (count_or_1 oc stripped + 1) s
         else
           s\<lparr> excluded := excluded s @
                [\<lparr> e_value = cleaned,
                   e_reason = js ''10 digits (excluded - likely Transport ID)'' \<rparr>] \<rparr>)
      else if len > 10 \<and> startsWith0 cleaned then
        (if length stripped = 8 then
           zero_fix cleaned stripped
             (js ''Removed '' @ decimal (len - 8) @ js '' leading zero(s)'') 2 s
         else
           s\<lparr> invalid := invalid s @
                [\<lparr> e_value = cleaned,
                   e_reason = decimal len @ js '' digits (expected 8)'' \<rparr>] \<rparr>)
      else if len = 9 \<or> len = 10 then
        s\<lparr> excluded := excluded s @
             [\<lparr> e_value = cleaned,
                e_reason = decimal len @ js '' digits (excluded - likely Transport ID)'' \<rparr>] \<rparr>
      else if len = 7 then
        s\<lparr> pending7Digit := pending7Digit s @ [cleaned] \<rparr>
      else
        s\<lparr> invalid := invalid s @
             [\<lparr> e_value = cleaned, e_reason = decimal len @ js '' digits (expected 8)'' \<rparr>] \<rparr>)"

text \<open>The first loop: every raw note in order.\<close>

definition pass1 :: "extraction \<Rightarrow> vstate" where
  "pass1 er = foldl (classify (x_occurrenceCount er)) (init_state er) (x_unique er)"

subsection \<open>The dominant first digit\<close>

text \<open>
  \<^verbatim>\<open>firstDigitCounts[fd] = (firstDigitCounts[fd] || 0) + 1\<close> on an object whose keys are
  kept in creation order.
\<close>

fun bump :: "jsstring \<Rightarrow> (jsstring \<times> int) list \<Rightarrow> (jsstring \<times> int) list" where
  "bump k [] = [(k, 1)]"
| "bump k ((k', n) # r) = (if k = k' then (k', n + 1) # r else (k', n) # bump k r)"

definition firstDigitCounts :: "vstate \<Rightarrow> (jsstring \<times> int) list" where
  "firstDigitCounts s =
     foldl (\<lambda>m c. bump (char0 (c_corrected c)) m)
       (foldl (\<lambda>m note. bump (char0 note) m) [] (tempAccepted s))
       (autoCorrections s)"

text \<open>
  \<^verbatim>\<open>Object.entries\<close> lists the integer-index keys first, in ascending numeric order, and
  the other keys after them in creation order. Among the keys that occur here (a single
  code unit, or \<^verbatim>\<open>undefined\<close>) the integer indices are the ten one-digit strings.
\<close>

definition is_index_key :: "jsstring \<Rightarrow> bool" where
  "is_index_key k = (case k of [c] \<Rightarrow> is_digit c | _ \<Rightarrow> False)"

definition entries :: "(jsstring \<times> int) list \<Rightarrow> (jsstring \<times> int) list" where
  "entries m =
     concat (map (\<lambda>d. filter (\<lambda>kv. fst kv = [d]) m) [48 ..< 58])
     @ filter (\<lambda>kv. \<not> is_index_key (fst kv)) m"

text \<open>
  \<^verbatim>\<open>threshold = Math.max(1, totalAccepted * 0.3)\<close> and the test \<^verbatim>\<open>count >= threshold\<close>.
  The count and the total are integers, so the test is \<open>1 \<le> count\<close> and
  \<open>3 * total \<le> 10 * count\<close>: the double nearest to 0.3 times the total is the integer
  \<open>3 * total / 10\<close> when that is an integer and is otherwise farther than 0.09 from every
  integer, for every total an array can hold.
\<close>

definition reaches_threshold :: "int \<Rightarrow> int \<Rightarrow> bool" where
  "reaches_threshold cnt tot = (1 \<le> cnt \<and> 3 * tot \<le> 10 * cnt)"

definition dominant_step :: "int \<Rightarrow> (jsstring option \<times> int) \<Rightarrow> (jsstring \<times> int) \<Rightarrow> (jsstring option \<times> int)" where
  "dominant_step tot acc kv =
     (if snd kv > snd acc \<and> reaches_threshold (snd kv) tot then (Some (fst kv), snd kv)
      else acc)"

definition dominantDigit :: "vstate \<Rightarrow> jsstring option" where
  "dominantDigit s =
     fst (foldl (dominant_step (int (length (tempAccepted s)) + int (length (autoCorrections s))))
            (None, 0) (entries (firstDigitCounts s)))"

text \<open>
  \<^verbatim>\<open>if (dominantDigit)\<close>: \<^verbatim>\<open>null\<close> is falsy, and so would the empty string be; every other
  string, \<^verbatim>\<open>'0'\<close> included, is truthy.
\<close>

definition truthy :: "jsstring option \<Rightarrow> bool" where
  "truthy v = (case v of None \<Rightarrow> False | Some t \<Rightarrow> t \<noteq> [])"

subsection \<open>The loop over the pending 7-digit values\<close>

definition fix7 :: "(jsstring \<rightharpoonup> int) \<Rightarrow> jsstring option \<Rightarrow> vstate \<Rightarrow> jsstring \<Rightarrow> vstate" where
  "fix7 oc dd s pending =
     (if truthy dd then
        (let d = the dd in
         if char0 pending = d then
           s\<lparr> invalid := invalid s @
                [\<lparr> e_value = pending,
                   e_reason = js ''7 digits - already starts with '' @ [39] @ d @ [39]
                              @ js '' (missing last digit, not first)'' \<rparr>] \<rparr>
         else
           (let corrected = d @ pending in
            if corrected \<notin> seen s then
              s\<lparr> seen := insert corrected (seen s),
                 autoCorrections := autoCorrections s @
                   [\<lparr> c_original = pending, c_corrected = corrected,
                      c_confidence = js ''high'',
                      c_reason = js ''Added leading '' @ [39] @ d @ [39] \<rparr>],
                 accepted := accepted s @ [corrected] \<rparr>
            else
              (let existingCount = count_or_1 oc corrected in
               s\<lparr> duplicates := duplicates s @
                    [\<lparr> d_value = corrected, d_count = existingCount + 1,
                       d_reason = js ''Corrected from '' @ pending @ js '', already exists (now ''
                                  @ (if 0 \<le> existingCount + 1 then decimal (nat (existingCount + 1))
                                     else [45] @ decimal (nat (- (existingCount + 1))))
                                  @ js '' times)'' \<rparr>],
                  duplicateCount := duplicateCount s + 1 \<rparr>)))
      else
        s\<lparr> invalid := invalid s @
             [\<lparr> e_value = pending, e_reason = js ''7 digits - needs manual review'' \<rparr>] \<rparr>)"

text \<open>
  The dominant digit is computed once, from the state the first loop leaves, and only
  when there is a pending value.
\<close>

definition pass2 :: "(jsstring \<rightharpoonup> int) \<Rightarrow> vstate \<Rightarrow> vstate" where
  "pass2 oc s =
     (if pending7Digit s \<noteq> [] then foldl (fix7 oc (dominantDigit s)) s (pending7Digit s)
      else s)"

subsection \<open>The duplicates found by the extraction, and the result\<close>

definition add_extracted :: "vstate \<Rightarrow> duplicate \<Rightarrow> vstate" where
  "add_extracted s dup =
     (if length (d_value dup) = 8 \<and> d_value dup \<in> seen s
         \<and> \<not> list_ex (\<lambda>d. d_value d = d_value dup) (duplicates s)
      then s\<lparr> duplicates := duplicates s @ [dup],
              duplicateCount := duplicateCount s + (d_count dup - 1) \<rparr>
      else s)"

definition finish :: "extraction \<Rightarrow> vstate \<Rightarrow> results" where
  "finish er s =
     (let s1 = s\<lparr> accepted := accepted s @ tempAccepted s \<rparr>;
          s2 = foldl add_extracted s1 (x_duplicates er)
      in \<lparr> accepted = accepted s2, excluded = excluded s2, invalid = invalid s2,
           autoCorrections = autoCorrections s2, duplicates = duplicates s2,
           uniqueCount = int (length (remdups (accepted s2))),
           duplicateCount = duplicateCount s2, totalOccurrences = totalOccurrences s2 \<rparr>)"

definition validateDeliveryNotes :: "extraction \<Rightarrow> results" where
  "validateDeliveryNotes er = finish er (pass2 (x_occurrenceCount er) (pass1 er))"

section \<open>Auxiliary notions for the proofs\<close>

definition grows :: "vstate \<Rightarrow> vstate \<Rightarrow> bool" where
  "grows s t \<longleftrightarrow>
     set (accepted s) \<subseteq> set (accepted t) \<and> set (excluded s) \<subseteq> set (excluded t) \<and>
     set (invalid s) \<subseteq> set (invalid t) \<and> set (autoCorrections s) \<subseteq> set (autoCorrections t) \<and>
     set (duplicates s) \<subseteq> set (duplicates t) \<and> seen s \<subseteq> seen t \<and>
     set (tempAccepted s) \<subseteq> set (tempAccepted t) \<and>
     set (pending7Digit s) \<subseteq> set (pending7Digit t)"

definition shape_ok :: "vstate \<Rightarrow> bool" where
  "shape_ok s \<longleftrightarrow>
     (\<forall>e \<in> set (excluded s). all_digits (e_value e) \<and> (length (e_value e) = 9 \<or> length (e_value e) = 10)) \<and>
     (\<forall>e \<in> set (invalid s). \<not> (all_digits (e_value e) \<and> length (e_value e) = 8)) \<and>
     (\<forall>p \<in> set (pending7Digit s). all_digits p \<and> length p = 7) \<and>
     (\<forall>a \<in> set (tempAccepted s). all_digits a \<and> length a = 8)"

text \<open>Concrete extraction results used to run the model.\<close>

definition extraction_of :: "jsstring list \<Rightarrow> extraction" where
  "extraction_of notes = \<lparr> x_unique = notes, x_duplicates = [], x_totalCount = int (length notes),
     x_occurrenceCount = Map.empty \<rparr>"

definition long_zero_example :: extraction where
  "long_zero_example = extraction_of [js ''012345678901'']"


text \<open>
  The set \<open>seen\<close> holds exactly the values accepted so far, and no two corrections lead to
  the same value.
\<close>

definition corr_ok :: "vstate \<Rightarrow> bool" where
  "corr_ok s \<longleftrightarrow>
     seen s = set (accepted s) \<union> set (tempAccepted s) \<and>
     distinct (map c_corrected (autoCorrections s)) \<and>
     set (map c_corrected (autoCorrections s)) \<subseteq> seen s"

definition zero_dup_example :: extraction where
  "zero_dup_example = extraction_of [js ''12345678'', js ''012345678'']"

definition zero_fix_example :: extraction where
  "zero_fix_example = extraction_of [js ''0080652245'']"

definition zero_recorded :: "jsstring \<Rightarrow> vstate \<Rightarrow> bool" where
  "zero_recorded c s \<longleftrightarrow>
     strip_zeros c \<in> seen s \<and>
     ((\<exists>a \<in> set (autoCorrections s). c_original a = c \<and> c_corrected a = strip_zeros c)
      \<or> (\<exists>d \<in> set (duplicates s). d_value d = strip_zeros c
            \<and> d_reason d = js ''Corrected from '' @ c @ js '', already exists''))"

definition orig_ok :: "jsstring \<Rightarrow> vstate \<Rightarrow> bool" where
  "orig_ok c s \<longleftrightarrow> (\<forall>a \<in> set (autoCorrections s). c_original a \<noteq> c)"

definition acc8 :: "vstate \<Rightarrow> bool" where
  "acc8 s \<longleftrightarrow> (\<forall>a \<in> set (accepted s). length a = 8)"

definition dominant_example :: extraction where
  "dominant_example = extraction_of [js ''26996798'', js ''27008029'', js ''27005099'', js ''2715703'']"

section \<open>Confirmations of receipt: the shapes of an identifier (CR.js)\<close>

datatype cr_type = EP1 | H01 | UNKNOWN

text \<open>
  \<^verbatim>\<open>CONFIG.patterns.EP1 = /^1\d{7}$/\<close> and \<^verbatim>\<open>CONFIG.patterns.H01 = /^5\d{5}$/\<close>. Without the
  multiline flag \<^verbatim>\<open>^\<close> and \<^verbatim>\<open>$\<close> are the two ends of the string.
\<close>

definition matches_EP1 :: "jsstring \<Rightarrow> bool" where
  "matches_EP1 v = (case v of [] \<Rightarrow> False | c # r \<Rightarrow> c = 49 \<and> length r = 7 \<and> list_all is_digit r)"

definition matches_H01 :: "jsstring \<Rightarrow> bool" where
  "matches_H01 v = (case v of [] \<Rightarrow> False | c # r \<Rightarrow> c = 53 \<and> length r = 5 \<and> list_all is_digit r)"

definition isValidCR :: "jsstring \<Rightarrow> bool" where
  "isValidCR v = (matches_EP1 v \<or> matches_H01 v)"

definition getCRType :: "jsstring \<Rightarrow> cr_type" where
  "getCRType v = (if matches_EP1 v then EP1 else if matches_H01 v then H01 else UNKNOWN)"

section \<open>Grouping the pages: \<^verbatim>\<open>groupPagesByCR\<close> (CR.js)\<close>

text \<open>
  A page as \<^verbatim>\<open>processFile\<close> builds it. \<open>cr\<close> and \<open>crType\<close> are a string or \<^verbatim>\<open>null\<close>.
\<close>

record page =
  pageIndex :: nat
  pageNum :: nat
  p_text :: jsstring
  usedOCR :: bool
  cr :: "jsstring option"
  crType :: "cr_type option"

record pgroup =
  g_cr :: "jsstring option"
  g_crType :: "cr_type option"
  g_pages :: "page list"

text \<open>The two variables of the loop: the array \<^verbatim>\<open>groups\<close> and \<^verbatim>\<open>currentGroup\<close>.\<close>

record gstate =
  groups :: "pgroup list"
  currentGroup :: "pgroup option"

text \<open>
  The inner loop \<^verbatim>\<open>for (j = i + 1; j < pages.length && j < i + 3; j++)\<close>: the identifier
  of the first of the next two pages that has one.
\<close>

definition lookahead :: "page list \<Rightarrow> nat \<Rightarrow> jsstring option" where
  "lookahead pages i =
     (case filter (\<lambda>p. truthy (cr p)) (take 2 (drop (i + 1) pages)) of
        [] \<Rightarrow> None
      | p # _ \<Rightarrow> cr p)"

text \<open>The branch for an orphan page: no group is open.\<close>

definition orphan :: "page list \<Rightarrow> gstate \<Rightarrow> nat \<Rightarrow> gstate" where
  "orphan pages st i =
     (let foundCR = lookahead pages i in
      if truthy foundCR then
        st\<lparr> currentGroup := Some \<lparr> g_cr = foundCR, g_crType = Some (getCRType (the foundCR)),
                                    g_pages = [pages ! i] \<rparr> \<rparr>
      else st)"

text \<open>One iteration of the loop, for the page at index \<open>i\<close> (which is in range).\<close>

definition group_step :: "page list \<Rightarrow> gstate \<Rightarrow> nat \<Rightarrow> gstate" where
  "group_step pages st i =
     (let page = pages ! i in
      if truthy (cr page) then
        (case currentGroup st of
           None \<Rightarrow>
             st\<lparr> currentGroup := Some \<lparr> g_cr = cr page, g_crType = crType page, g_pages = [page] \<rparr> \<rparr>
         | Some g \<Rightarrow>
             if g_cr g = cr page then
               st\<lparr> currentGroup := Some (g\<lparr> g_pages := g_pages g @ [page] \<rparr>) \<rparr>
             else
               \<lparr> groups = (if g_pages g \<noteq> [] then groups st @ [g] else groups st),
                 currentGroup = Some \<lparr> g_cr = cr page, g_crType = crType page, g_pages = [page] \<rparr> \<rparr>)
      else
        (case currentGroup st of
           None \<Rightarrow> orphan pages st i
         | Some g \<Rightarrow>
             if g_pages g \<noteq> [] then
               st\<lparr> currentGroup := Some (g\<lparr> g_pages := g_pages g @ [page] \<rparr>) \<rparr>
             else orphan pages st i))"

text \<open>The state on arrival at index \<open>i\<close>, and the groups after the last push.\<close>

definition state_at :: "page list \<Rightarrow> nat \<Rightarrow> gstate" where
  "state_at pages i = foldl (group_step pages) \<lparr> groups = [], currentGroup = None \<rparr> [0 ..< i]"

definition closed_groups :: "gstate \<Rightarrow> pgroup list" where
  "closed_groups st =
     (case currentGroup st of
        None \<Rightarrow> groups st
      | Some g \<Rightarrow> if g_pages g \<noteq> [] then groups st @ [g] else groups st)"

text \<open>
  The \<^verbatim>\<open>Map\<close> named \<^verbatim>\<open>merged\<close>, as the list of its values in insertion order: a group
  whose identifier is a key already gives its pages to the entry of that key.
\<close>

fun merge_into :: "pgroup list \<Rightarrow> pgroup \<Rightarrow> pgroup list" where
  "merge_into [] g = [g]"
| "merge_into (m # ms) g =
     (if g_cr m = g_cr g then m\<lparr> g_pages := g_pages m @ g_pages g \<rparr> # ms
      else m # merge_into ms g)"

definition groupPagesByCR :: "page list \<Rightarrow> pgroup list" where
  "groupPagesByCR pages = foldl merge_into [] (closed_groups (state_at pages (length pages)))"

text \<open>The test \<^verbatim>\<open>if (!group.cr)\<close> by which \<^verbatim>\<open>processFile\<close> skips a group.\<close>

definition skipped :: "pgroup \<Rightarrow> bool" where
  "skipped g = (\<not> truthy (g_cr g))"

text \<open>Pages for running the model: index, identifier, and type.\<close>

definition mk_page :: "nat \<Rightarrow> jsstring option \<Rightarrow> page" where
  "mk_page i c = \<lparr> pageIndex = i, pageNum = i + 1, p_text = [], usedOCR = False, cr = c,
     crType = (case c of None \<Rightarrow> None | Some v \<Rightarrow> Some (getCRType v)) \<rparr>"

definition three_pages :: "page list" where
  "three_pages = [mk_page 0 (Some (js ''577770'')), mk_page 1 None, mk_page 2 None]"

definition orphan_pages :: "page list" where
  "orphan_pages = [mk_page 0 None, mk_page 1 None, mk_page 2 None, mk_page 3 None,
     mk_page 4 (Some (js ''12345678'')), mk_page 5 None, mk_page 6 (Some (js ''577770'')),
     mk_page 7 (Some (js ''12345678''))]"

text \<open>Every group of a state, the open one last.\<close>

definition all_groups :: "gstate \<Rightarrow> pgroup list" where
  "all_groups st = groups st @ (case currentGroup st of None \<Rightarrow> [] | Some g \<Rightarrow> [g])"

definition group_ok :: "pgroup \<Rightarrow> bool" where
  "group_ok g \<longleftrightarrow> truthy (g_cr g) \<and> g_pages g \<noteq> []"

definition ginv :: "gstate \<Rightarrow> bool" where
  "ginv st \<longleftrightarrow> list_all group_ok (all_groups st) \<and> (currentGroup st = None \<longrightarrow> groups st = [])"

text \<open>The pairs of an identifier and a page filed under it.\<close>

definition filed_pages :: "pgroup list \<Rightarrow> (jsstring option \<times> page) set" where
  "filed_pages gs = (\<Union>g \<in> set gs. (\<lambda>p. (g_cr g, p)) ` set (g_pages g))"

text \<open>The first group is anchored to \<open>c\<close> and starts with the page \<open>p\<close>.\<close>

definition starts_with :: "pgroup list \<Rightarrow> jsstring option \<Rightarrow> page \<Rightarrow> bool" where
  "starts_with gs c p =
     (case gs of [] \<Rightarrow> False
      | g # _ \<Rightarrow> g_cr g = c \<and> (case g_pages g of [] \<Rightarrow> False | q # _ \<Rightarrow> q = p))"

definition blank_pages :: "page list" where
  "blank_pages = [mk_page 0 None, mk_page 1 (Some []), mk_page 2 None]"

section \<open>Stamp and signature: the verdict of \<^verbatim>\<open>analyzeStampAndSignature\<close> (CR.js)\<close>

datatype presence = PRESENT | UNCERTAIN | MISSING

datatype overall = COMPLETE | DATE_MISSING | STAMP_MISSING | SIGNATURE_MISSING | BOTH_MISSING
  | NEEDS_REVIEW

text \<open>
  What the function measures on the canvas before it decides: the blue density of the
  region (\<^verbatim>\<open>analyzeROI\<close>), the four results of \<^verbatim>\<open>analyzeSignatureStrokes\<close> it reads, and
  \<^verbatim>\<open>hasDate\<close> of \<^verbatim>\<open>analyzeDateField\<close>. The pixel statistics themselves are floating-point
  sums over the image and are taken as given; the densities are compared as real numbers.
\<close>

record measures =
  blueDensity :: real
  hasBlackInkSignature :: bool
  hasSignaturePattern :: bool
  darkStrokeDensity :: real
  strokeRatio :: real
  hasDate :: bool

text \<open>
  \<^verbatim>\<open>config.blueThreshold || CONFIG.defaults.blueThreshold\<close>: an absent or zero setting
  gives the default 0.25.
\<close>

definition blueThreshold :: "real option \<Rightarrow> real" where
  "blueThreshold cfg = (case cfg of None \<Rightarrow> 0.25 | Some t \<Rightarrow> if t = 0 then 0.25 else t)"

definition stampStatus :: "real option \<Rightarrow> measures \<Rightarrow> presence" where
  "stampStatus cfg m =
     (if blueDensity m \<ge> blueThreshold cfg then PRESENT
      else if blueDensity m \<ge> blueThreshold cfg * 0.5 then UNCERTAIN
      else MISSING)"

definition signatureStatus :: "measures \<Rightarrow> presence" where
  "signatureStatus m =
     (if hasBlackInkSignature m then PRESENT
      else if hasSignaturePattern m then PRESENT
      else if darkStrokeDensity m > 0.5 \<and> strokeRatio m > 0.1 then UNCERTAIN
      else MISSING)"

text \<open>The chain of tests that sets \<^verbatim>\<open>overallStatus\<close>, in the order of the source.\<close>

definition overallStatus :: "presence \<Rightarrow> presence \<Rightarrow> bool \<Rightarrow> overall" where
  "overallStatus stamp signature dated =
     (if stamp = PRESENT \<and> signature = PRESENT then (if dated then COMPLETE else DATE_MISSING)
      else if stamp = MISSING \<and> signature = MISSING then BOTH_MISSING
      else if stamp = UNCERTAIN \<or> signature = UNCERTAIN then NEEDS_REVIEW
      else if stamp = MISSING then STAMP_MISSING
      else if signature = MISSING then SIGNATURE_MISSING
      else NEEDS_REVIEW)"

record verification =
  v_overallStatus :: overall
  v_stamp :: presence
  v_signature :: presence
  v_date :: presence

definition analyzeStampAndSignature :: "real option \<Rightarrow> measures \<Rightarrow> verification" where
  "analyzeStampAndSignature cfg m =
     \<lparr> v_overallStatus = overallStatus (stampStatus cfg m) (signatureStatus m) (hasDate m),
       v_stamp = stampStatus cfg m, v_signature = signatureStatus m,
       v_date = (if hasDate m then PRESENT else MISSING) \<rparr>"

definition stamped_undated :: measures where
  "stamped_undated = \<lparr> blueDensity = 1.5, hasBlackInkSignature = True, hasSignaturePattern = False,
     darkStrokeDensity = 0.2, strokeRatio = 0.3, hasDate = False \<rparr>"

section \<open>The token normalizer: \<^verbatim>\<open>normalizeToken\<close> (CR.js)\<close>

text \<open>
  \<^verbatim>\<open>String.prototype.toUpperCase\<close> is the host's: it follows the case tables of Unicode.
  The model takes it as the parameter \<open>up\<close> of the functions that call it. The only fact
  about it that the proofs use is that it leaves a string of ASCII digits as it is.
\<close>

definition fixes_digits :: "(jsstring \<Rightarrow> jsstring) \<Rightarrow> bool" where
  "fixes_digits up = (\<forall>s. list_all is_digit s \<longrightarrow> up s = s)"

text \<open>On ASCII text \<^verbatim>\<open>toUpperCase\<close> maps \<open>a\<close> to \<open>z\<close> to \<open>A\<close> to \<open>Z\<close> and nothing else.\<close>

definition ascii_upper :: "jsstring \<Rightarrow> jsstring" where
  "ascii_upper s = map (\<lambda>c. if 97 \<le> c \<and> c \<le> 122 then c - 32 else c) s"

text \<open>\<^verbatim>\<open>s.replace(/[...]/g, r)\<close> for a class of single code units and a one-character \<open>r\<close>.\<close>

definition subst :: "jschar list \<Rightarrow> jschar \<Rightarrow> jsstring \<Rightarrow> jsstring" where
  "subst cls r s = map (\<lambda>c. if c \<in> set cls then r else c) s"

text \<open>
  The separators of \<^verbatim>\<open>/[\s\-\.\,\_]+/g\<close>: white space, dash, dot, comma, underscore.
\<close>

definition is_separator :: "jschar \<Rightarrow> bool" where
  "is_separator c = (is_space c \<or> c \<in> set [45, 46, 44, 95])"

text \<open>
  The function on a string argument. The empty string is falsy and returns the empty
  string at once. The substitutions are applied one after the other, each over the whole
  string: \<open>O Q\<close> to \<open>0\<close>; \<open>I L | ] [\<close> to \<open>1\<close>; \<open>S s $\<close> to \<open>5\<close>; \<open>B\<close> to \<open>8\<close>; \<open>G\<close> to
  \<open>9\<close>; \<open>Z\<close> to \<open>2\<close>; then everything that is not a digit is dropped.
\<close>

definition normalizeToken :: "(jsstring \<Rightarrow> jsstring) \<Rightarrow> jsstring \<Rightarrow> jsstring" where
  "normalizeToken up raw =
     (if raw = [] then []
      else
        (let s0 = up (filter (\<lambda>c. \<not> is_separator c) (subst [160] 32 raw));
             s1 = subst [79, 81] 48 s0;
             s2 = subst [73, 76, 124, 93, 91] 49 s1;
             s3 = subst [83, 115, 36] 53 s2;
             s4 = subst [66] 56 s3;
             s5 = subst [71] 57 s4;
             s6 = subst [90] 50 s5
         in filter is_digit s6))"

text \<open>Every value pushed to \<open>accepted\<close> by the two loops is the value of a correction.\<close>

definition acc_corr :: "vstate \<Rightarrow> bool" where
  "acc_corr s \<longleftrightarrow> accepted s = map c_corrected (autoCorrections s)"

section \<open>Delivery notes: the extraction and what can raise\<close>

subsection \<open>\<^verbatim>\<open>extractPotentialDeliveryNotes\<close> (app.js)\<close>






subsection \<open>A candidate that is not a string\<close>

text \<open>
  The only operation of \<^verbatim>\<open>validateDeliveryNotes\<close> that can throw is the call
  \<^verbatim>\<open>note.replace(...)\<close> at the head of the first loop: on a value that is not a string
  it is a \<^verbatim>\<open>TypeError\<close>. Everything behind it works on the string \<^verbatim>\<open>cleaned\<close> and on
  arrays and sets the function has built itself. To make the exception a result, the
  candidates are taken here as arbitrary values.
\<close>

datatype jsvalue = JString jsstring | JNumber int | JBoolean bool | JNull | JUndefined











section \<open>Locating the identifier: \<^verbatim>\<open>findCRsOnText\<close> (CR.js)\<close>

text \<open>
  A regular expression is given by its source text and its flags, as in
  \<^verbatim>\<open>new RegExp(source, flags)\<close>. In the source texts below \<open>%\<close> is written for the
  backslash; code units beyond ASCII are given by number.
\<close>

record regexp =
  rx_source :: jsstring
  rx_flags :: jsstring

definition rx :: "string \<Rightarrow> jsstring" where
  "rx s = map (\<lambda>c. if c = CHR ''%'' then 92 else of_char c) s"

definition regexp_of :: "jsstring \<Rightarrow> string \<Rightarrow> regexp" where
  "regexp_of src fl = \<lparr> rx_source = src, rx_flags = js fl \<rparr>"

text \<open>
  A match: its index, the matched text \<^verbatim>\<open>m[0]\<close> and the first group \<^verbatim>\<open>m[1]\<close>. Every
  pattern of this function that has a group has it outside of any optional part, so the
  group is a string whenever the pattern matches; for a pattern without group the field
  is not read.
\<close>

record rmatch =
  m_index :: nat
  m_0 :: jsstring
  m_1 :: jsstring

text \<open>
  The host: \<^verbatim>\<open>toUpperCase\<close>, and the matching of the RegExp engine, which is what
  \<^verbatim>\<open>rx.exec(s)\<close>, \<^verbatim>\<open>s.match(rx)\<close> and \<^verbatim>\<open>rx.test(s)\<close> compute for a pattern without the
  \<open>g\<close> flag, and \<^verbatim>\<open>s.matchAll(rx)\<close> for one with it. The engine is a parameter of the
  model: what is proved holds whatever it answers.
\<close>

record host =
  toUpperCase :: "jsstring \<Rightarrow> jsstring"
  exec :: "regexp \<Rightarrow> jsstring \<Rightarrow> rmatch option"
  matchAll :: "regexp \<Rightarrow> jsstring \<Rightarrow> rmatch list"

definition test :: "host \<Rightarrow> regexp \<Rightarrow> jsstring \<Rightarrow> bool" where
  "test h r s = (exec h r s \<noteq> None)"

text \<open>\<^verbatim>\<open>s.substring(a, b)\<close>: both ends are clamped to the length, and swapped if needed.\<close>

definition substring :: "jsstring \<Rightarrow> nat \<Rightarrow> nat \<Rightarrow> jsstring" where
  "substring s a b =
     (let a' = min a (length s); b' = min b (length s)
      in take (max a' b' - min a' b') (drop (min a' b') s))"

subsection \<open>\<^verbatim>\<open>normalizeOCRText\<close>\<close>

text \<open>\<^verbatim>\<open>replace(/\r\n/g, '\n')\<close>, then \<^verbatim>\<open>replace(/\r/g, '\n')\<close>.\<close>

fun crlf :: "jsstring \<Rightarrow> jsstring" where
  "crlf (c # d # r) = (if c = 13 \<and> d = 10 then 10 # crlf r else c # crlf (d # r))"
| "crlf r = r"

definition cr_to_lf :: "jsstring \<Rightarrow> jsstring" where
  "cr_to_lf s = map (\<lambda>c. if c = 13 then 10 else c) s"

text \<open>
  One pass of \<^verbatim>\<open>replace(/(\d)\s+(\d)/g, '$1$2')\<close>: from left to right, a digit, a
  non-empty run of white space and a digit become the two digits, and the search goes on
  behind the second digit.
\<close>

function collapse :: "jsstring \<Rightarrow> jsstring" where
  "collapse [] = []"
| "collapse (c # r) =
     (if is_digit c \<and> takeWhile is_space r \<noteq> [] then
        (case dropWhile is_space r of
           [] \<Rightarrow> c # collapse r
         | d # r' \<Rightarrow> if is_digit d then c # d # collapse r' else c # collapse r)
      else c # collapse r)"
  by pat_completeness auto
termination
proof (relation "measure length")
  show "wf (measure length)" by simp
next
  fix c r d r'
  assume "dropWhile is_space r = d # r'"
  then have "length (d # r') \<le> length r"
    by (metis length_dropWhile_le)
  then show "(r', c # r) \<in> measure length" by simp
qed simp_all

definition normalizeOCRText :: "jsstring \<Rightarrow> jsstring" where
  "normalizeOCRText t = (if t = [] then [] else collapse (collapse (collapse (cr_to_lf (crlf t)))))"

subsection \<open>The patterns\<close>

definition directPatterns :: "regexp list" where
  "directPatterns =
     [regexp_of (rx ''No%.?%s*of%s*confirmation%s*of%s*receipt[:%s%-]*([0-9OIlSsQBG%s]{4,14})'') ''i'',
      regexp_of (rx ''confirmation%s*of%s*receipt[:%s%-]*([0-9OIlSsQBG%s]{4,14})%s*from'') ''i'',
      regexp_of (rx ''Gelangensbest'' @ [228] @ rx ''tigung(?:%s+Nr%.?)?[:%s%-]*([0-9OIlSsQBG%s]{4,14})'') ''i'']"

definition strictAnchors :: "regexp list" where
  "strictAnchors =
     [regexp_of (rx ''No%.?%s*of%s*confirmation%s*of%s*receipt'') ''i'',
      regexp_of (rx ''Gelangensbest'' @ [228] @ rx ''tigung(?:%s+Nr%.?)?'') ''i'',
      regexp_of (rx ''Best'' @ [228] @ rx ''tigung(?:%s+Nr%.?)?'') ''i'']"

definition broadAnchors :: "regexp list" where
  "broadAnchors =
     [regexp_of (rx ''confirmation%s*of%s*receipt'') ''i'',
      regexp_of (rx ''Gelangen'') ''i'']"

definition EXCLUSION_CONTEXT_PATTERNS :: "regexp list" where
  "EXCLUSION_CONTEXT_PATTERNS =
     [regexp_of (rx ''%bStr%.%s*DE%s*%d+'') ''i'',
      regexp_of (rx ''%b%d{6}%s+%w+%b'') ''i'',
      regexp_of (rx ''%bDE%d{9,}'') ''i'',
      regexp_of (rx ''%bPage:?%s*%d+'') ''i'']"

text \<open>The letters \<open>A-Za-z\<close> and the ten Romanian letters of the postal-code tests.\<close>

definition letters :: jsstring where
  "letters = rx ''A-Za-z'' @ [259, 226, 238, 537, 539, 258, 194, 206, 536, 538]"

definition h01_word :: "string \<Rightarrow> regexp" where
  "h01_word fl = regexp_of (rx ''%b(5%d{5})%b'') fl"

definition ep1_word :: "string \<Rightarrow> regexp" where
  "ep1_word fl = regexp_of (rx ''%b(1%d{7})%b'') fl"

definition postal_after :: regexp where
  "postal_after = regexp_of (rx ''^%s+['' @ letters @ rx '']{2,}'') ''i''"

definition anchor_words :: regexp where
  "anchor_words = regexp_of (rx ''confirmation|receipt|Gelangen|best'' @ [228] @ rx ''tigung'') ''i''"

subsection \<open>\<^verbatim>\<open>isInExclusionContext\<close>\<close>

definition isInExclusionContext :: "host \<Rightarrow> jsstring \<Rightarrow> nat \<Rightarrow> jsstring \<Rightarrow> bool" where
  "isInExclusionContext h text matchIndex matchValue =
     (let start = matchIndex - 100;
          stop = min (length text) (matchIndex + length matchValue + 100);
          ctx = substring text start stop;
          postalPattern = regexp_of (rx ''%b'' @ matchValue @ rx ''%s+['' @ letters @ rx '']+%b'') ''i''
      in if test h postalPattern ctx then True
         else list_ex (\<lambda>pattern.
                test h pattern ctx \<and>
                (case exec h pattern ctx of None \<Rightarrow> False
                 | Some exclusionMatch \<Rightarrow> js_includes (m_0 exclusionMatch) matchValue))
              EXCLUSION_CONTEXT_PATTERNS)"

subsection \<open>The four stages\<close>

datatype cr_source = direct_anchor | near_anchor | global_search

datatype cr_confidence = conf_high | conf_medium | conf_low

record cr_match =
  cm_value :: jsstring
  cm_type :: cr_type
  cm_raw :: jsstring
  cm_index :: nat
  cm_source :: cr_source
  cm_confidence :: cr_confidence

text \<open>A loop that returns from the function at the first success.\<close>

fun first_some :: "('a \<Rightarrow> 'b option) \<Rightarrow> 'a list \<Rightarrow> 'b option" where
  "first_some f [] = None"
| "first_some f (x # xs) = (case f x of Some y \<Rightarrow> Some y | None \<Rightarrow> first_some f xs)"

text \<open>Priority 1: one direct pattern on one of the two texts.\<close>

definition try_direct :: "host \<Rightarrow> jsstring \<times> regexp \<Rightarrow> cr_match option" where
  "try_direct h sr =
     (case exec h (snd sr) (fst sr) of
        None \<Rightarrow> None
      | Some m \<Rightarrow>
          if m_1 m \<noteq> [] then
            (let norm = normalizeToken (toUpperCase h) (m_1 m) in
             if isValidCR norm then
               Some \<lparr> cm_value = norm, cm_type = getCRType norm, cm_raw = m_1 m,
                      cm_index = m_index m, cm_source = direct_anchor, cm_confidence = conf_high \<rparr>
             else None)
          else None)"

text \<open>
  A number of the given shape in a window, as the anchor stages look for it; \<open>postal\<close>
  is the additional test of the broad stage on the text behind the number.
\<close>

definition near_number :: "host \<Rightarrow> regexp \<Rightarrow> cr_type \<Rightarrow> (nat \<Rightarrow> bool) \<Rightarrow> jsstring \<Rightarrow> nat
    \<Rightarrow> cr_match option" where
  "near_number h pattern ty postal searchWindow anchorEnd =
     (case exec h pattern searchWindow of
        None \<Rightarrow> None
      | Some m \<Rightarrow>
          (let norm = normalizeToken (toUpperCase h) (m_1 m) in
           if \<not> postal (anchorEnd + m_index m) \<and> isValidCR norm then
             Some \<lparr> cm_value = norm, cm_type = ty, cm_raw = m_1 m,
                    cm_index = anchorEnd + m_index m, cm_source = near_anchor,
                    cm_confidence = conf_high \<rparr>
           else None))"

text \<open>Priority 2: one strict anchor, and the 50 characters behind it.\<close>

definition try_strict :: "host \<Rightarrow> jsstring \<Rightarrow> regexp \<Rightarrow> cr_match option" where
  "try_strict h normalizedText anchorRx =
     (case exec h anchorRx normalizedText of
        None \<Rightarrow> None
      | Some anchorMatch \<Rightarrow>
          (let anchorEnd = m_index anchorMatch + length (m_0 anchorMatch);
               searchWindow = substring normalizedText anchorEnd
                                (min (anchorEnd + 50) (length normalizedText))
           in case near_number h (h01_word []) H01 (\<lambda>_. False) searchWindow anchorEnd of
                Some r \<Rightarrow> Some r
              | None \<Rightarrow> near_number h (ep1_word []) EP1 (\<lambda>_. False) searchWindow anchorEnd))"

text \<open>Priority 3: one broad anchor, the 100 characters behind it, and the postal-code test.\<close>

definition try_broad :: "host \<Rightarrow> jsstring \<Rightarrow> regexp \<Rightarrow> cr_match option" where
  "try_broad h normalizedText anchorRx =
     (case exec h anchorRx normalizedText of
        None \<Rightarrow> None
      | Some anchorMatch \<Rightarrow>
          (let anchorEnd = m_index anchorMatch + length (m_0 anchorMatch);
               searchWindow = substring normalizedText anchorEnd
                                (min (anchorEnd + 100) (length normalizedText));
               looksLikePostalCode = (\<lambda>absoluteIndex.
                 test h postal_after (substring normalizedText (absoluteIndex + 6) (absoluteIndex + 56)))
           in case near_number h (h01_word []) H01 looksLikePostalCode searchWindow anchorEnd of
                Some r \<Rightarrow> Some r
              | None \<Rightarrow> near_number h (ep1_word []) EP1 (\<lambda>_. False) searchWindow anchorEnd))"

text \<open>Priority 4: the candidates of the global search.\<close>

definition hasAnchorNearby :: "host \<Rightarrow> jsstring \<Rightarrow> rmatch \<Rightarrow> bool" where
  "hasAnchorNearby h normalizedText m =
     test h anchor_words (substring normalizedText (m_index m - 200) (m_index m))"

definition h01_candidate :: "host \<Rightarrow> jsstring \<Rightarrow> rmatch \<Rightarrow> cr_match option" where
  "h01_candidate h normalizedText m =
     (let norm = normalizeToken (toUpperCase h) (m_1 m);
          afterMatch = substring normalizedText (m_index m + length (m_1 m))
                         (m_index m + length (m_1 m) + 50);
          looksLikePostalCode = test h postal_after afterMatch
      in if isValidCR norm \<and> \<not> isInExclusionContext h normalizedText (m_index m) (m_1 m)
            \<and> \<not> looksLikePostalCode
         then Some \<lparr> cm_value = norm, cm_type = H01, cm_raw = m_1 m, cm_index = m_index m,
                     cm_source = global_search,
                     cm_confidence = (if hasAnchorNearby h normalizedText m then conf_medium
                                      else conf_low) \<rparr>
         else None)"

definition ep1_candidate :: "host \<Rightarrow> jsstring \<Rightarrow> rmatch \<Rightarrow> cr_match option" where
  "ep1_candidate h normalizedText m =
     (let norm = normalizeToken (toUpperCase h) (m_1 m)
      in if isValidCR norm \<and> hasAnchorNearby h normalizedText m
            \<and> \<not> isInExclusionContext h normalizedText (m_index m) (m_1 m)
         then Some \<lparr> cm_value = norm, cm_type = EP1, cm_raw = m_1 m, cm_index = m_index m,
                     cm_source = global_search, cm_confidence = conf_medium \<rparr>
         else None)"

definition global_stage :: "host \<Rightarrow> jsstring \<Rightarrow> cr_match list" where
  "global_stage h normalizedText =
     (let c1 = List.map_filter (h01_candidate h normalizedText)
                 (matchAll h (h01_word ''g'') normalizedText);
          h01WithAnchor = filter (\<lambda>c. cm_confidence c = conf_medium) c1
      in if h01WithAnchor \<noteq> [] then [hd h01WithAnchor]
         else
           (let globalCandidates =
                  (if c1 = [] then List.map_filter (ep1_candidate h normalizedText)
                                     (matchAll h (ep1_word ''g'') normalizedText)
                   else c1)
            in if globalCandidates \<noteq> [] then
                 (let medConf = filter (\<lambda>c. cm_confidence c = conf_medium) globalCandidates
                  in if medConf \<noteq> [] then [hd medConf] else [hd globalCandidates])
               else []))"

definition findCRsOnText :: "host \<Rightarrow> jsstring \<Rightarrow> cr_match list" where
  "findCRsOnText h text =
     (if text = [] then []
      else
        (let normalizedText = normalizeOCRText text in
         case first_some (try_direct h) (List.product [normalizedText, text] directPatterns) of
           Some r \<Rightarrow> [r]
         | None \<Rightarrow>
             (case first_some (try_strict h normalizedText) strictAnchors of
                Some r \<Rightarrow> [r]
              | None \<Rightarrow>
                  (case first_some (try_broad h normalizedText) broadAnchors of
                     Some r \<Rightarrow> [r]
                   | None \<Rightarrow> global_stage h normalizedText))))"

text \<open>
  The two number patterns \<^verbatim>\<open>/\b(5\d{5})\b/\<close> and \<^verbatim>\<open>/\b(1\d{7})\b/\<close> have one group each:
  \<open>5\<close> and five digits, \<open>1\<close> and seven digits. This is what an engine that follows the
  patterns reports as the group of a match, with and without the \<open>g\<close> flag.
\<close>

definition number_groups :: "host \<Rightarrow> bool" where
  "number_groups h \<longleftrightarrow>
     (\<forall>fl s m. exec h (h01_word fl) s = Some m \<longrightarrow> matches_H01 (m_1 m))
     \<and> (\<forall>fl s m. m \<in> set (matchAll h (h01_word fl) s) \<longrightarrow> matches_H01 (m_1 m))
     \<and> (\<forall>fl s m. exec h (ep1_word fl) s = Some m \<longrightarrow> matches_EP1 (m_1 m))
     \<and> (\<forall>fl s m. m \<in> set (matchAll h (ep1_word fl) s) \<longrightarrow> matches_EP1 (m_1 m))"

text \<open>
  What every returned match satisfies: its value is the normalized raw token, the value
  has one of the two accepted shapes, and the type is one of the two; with an engine that
  follows the number patterns the type is the one of the value.
\<close>

definition well_formed :: "host \<Rightarrow> cr_match \<Rightarrow> bool" where
  "well_formed h r \<longleftrightarrow>
     cm_value r = normalizeToken (toUpperCase h) (cm_raw r) \<and> isValidCR (cm_value r)
     \<and> cm_type r \<noteq> UNKNOWN
     \<and> (fixes_digits (toUpperCase h) \<and> number_groups h \<longrightarrow> cm_type r = getCRType (cm_value r))"

text \<open>
  A host for running the model on two texts. On \<open>No. of confirmation of receipt 577770\<close>
  the first direct pattern matches the whole text, with the group \<open>577770\<close>. On
  \<open>Ref 577770\<close> no anchor pattern matches, and the global search for \<open>5\<close> plus five digits
  has the one match \<open>577770\<close> at index 4; no other pattern matches a piece of this text.
\<close>

definition receipt_text :: jsstring where
  "receipt_text = js ''No. of confirmation of receipt 577770''"

definition bare_text :: jsstring where
  "bare_text = js ''Ref 577770''"

definition table_host :: host where
  "table_host = \<lparr> toUpperCase = ascii_upper,
     exec = (\<lambda>r s. if r = hd directPatterns \<and> s = receipt_text
                    then Some \<lparr> m_index = 0, m_0 = receipt_text, m_1 = js ''577770'' \<rparr>
                    else None),
     matchAll = (\<lambda>r s. if r = h01_word ''g'' \<and> s = bare_text
                        then [\<lparr> m_index = 4, m_0 = js ''577770'', m_1 = js ''577770'' \<rparr>]
                        else []) \<rparr>"

section \<open>Properties of the delivery-note validation\<close>

lemma foldl_inv:
  assumes "P s" and "\<And>t x. P t \<Longrightarrow> x \<in> set xs \<Longrightarrow> P (f t x)"
  shows "P (foldl f s xs)"
  using assms by (induction xs arbitrary: s) auto

lemma strip_ws_digits: "list_all is_digit c \<Longrightarrow> strip_ws c = c"
  by (induction c) (auto simp: strip_ws_def is_digit_def is_space_def)

subsection \<open>Buckets only grow\<close>

lemma grows_refl: "grows s s"
  by (simp add: grows_def)

lemma grows_trans: "grows s t \<Longrightarrow> grows t u \<Longrightarrow> grows s u"
  unfolding grows_def by blast

lemma grows_foldl:
  assumes "\<And>t x. grows t (f t x)"
  shows "grows s (foldl f s xs)"
proof (induction xs arbitrary: s)
  case Nil
  show ?case by (simp add: grows_refl)
next
  case (Cons x xs)
  have "grows s (f s x)" by (rule assms)
  moreover have "grows (f s x) (foldl f (f s x) xs)" by (rule Cons.IH)
  ultimately show ?case using grows_trans by simp
qed

lemma grows_foldl_from:
  assumes "\<And>t x. grows t (f t x)" and "x \<in> set xs"
    and "\<And>t. Q (f t x)" and "\<And>t u. Q t \<Longrightarrow> grows t u \<Longrightarrow> Q u"
  shows "Q (foldl f s xs)"
  using assms(2)
proof (induction xs arbitrary: s)
  case Nil
  then show ?case by simp
next
  case (Cons y ys)
  show ?case
  proof (cases "x = y")
    case True
    have "Q (f s x)" by (rule assms(3))
    moreover have "grows (f s x) (foldl f (f s x) ys)"
      using assms(1) by (rule grows_foldl)
    ultimately have "Q (foldl f (f s x) ys)" by (rule assms(4))
    with True show ?thesis by simp
  next
    case False
    with Cons show ?thesis by simp
  qed
qed

lemma grows_zero_fix: "grows s (zero_fix c v w n s)"
  by (auto simp: grows_def zero_fix_def)

lemma grows_classify: "grows s (classify oc s n)"
  by (auto simp: grows_def classify_def zero_fix_def Let_def)

lemma grows_fix7: "grows s (fix7 oc dd s p)"
  by (auto simp: grows_def fix7_def Let_def)

lemma grows_pass2: "grows s (pass2 oc s)"
  unfolding pass2_def using grows_foldl [of "fix7 oc (dominantDigit s)" s, OF grows_fix7]
  by (simp add: grows_refl)

subsection \<open>What the final stage keeps\<close>

lemma add_extracted_keeps:
  "accepted (add_extracted s d) = accepted s" "excluded (add_extracted s d) = excluded s"
  "invalid (add_extracted s d) = invalid s"
  "autoCorrections (add_extracted s d) = autoCorrections s"
  "set (duplicates s) \<subseteq> set (duplicates (add_extracted s d))"
  by (auto simp: add_extracted_def)

lemma foldl_add_extracted_keeps:
  "accepted (foldl add_extracted s ds) = accepted s \<and>
   excluded (foldl add_extracted s ds) = excluded s \<and>
   invalid (foldl add_extracted s ds) = invalid s \<and>
   autoCorrections (foldl add_extracted s ds) = autoCorrections s \<and>
   set (duplicates s) \<subseteq> set (duplicates (foldl add_extracted s ds))"
proof (induction ds arbitrary: s)
  case Nil
  show ?case by simp
next
  case (Cons d ds)
  show ?case
    using Cons.IH [of "add_extracted s d"] add_extracted_keeps [of s d] by auto
qed

lemma finish_accepted: "accepted (finish er s) = accepted s @ tempAccepted s"
  using foldl_add_extracted_keeps [of "s\<lparr>accepted := accepted s @ tempAccepted s\<rparr>" "x_duplicates er"]
  by (simp add: finish_def Let_def)

lemma finish_excluded: "excluded (finish er s) = excluded s"
  using foldl_add_extracted_keeps [of "s\<lparr>accepted := accepted s @ tempAccepted s\<rparr>" "x_duplicates er"]
  by (simp add: finish_def Let_def)

lemma finish_invalid: "invalid (finish er s) = invalid s"
  using foldl_add_extracted_keeps [of "s\<lparr>accepted := accepted s @ tempAccepted s\<rparr>" "x_duplicates er"]
  by (simp add: finish_def Let_def)

lemma finish_autoCorrections: "autoCorrections (finish er s) = autoCorrections s"
  using foldl_add_extracted_keeps [of "s\<lparr>accepted := accepted s @ tempAccepted s\<rparr>" "x_duplicates er"]
  by (simp add: finish_def Let_def)

lemma finish_duplicates: "set (duplicates s) \<subseteq> set (duplicates (finish er s))"
  using foldl_add_extracted_keeps [of "s\<lparr>accepted := accepted s @ tempAccepted s\<rparr>" "x_duplicates er"]
  by (simp add: finish_def Let_def)

subsection \<open>The shape of what each bucket holds\<close>

lemma shape_ok_init: "shape_ok (init_state er)"
  by (simp add: shape_ok_def init_state_def)

lemma shape_ok_classify: "shape_ok s \<Longrightarrow> shape_ok (classify oc s n)"
  by (auto simp: shape_ok_def classify_def zero_fix_def Let_def)

lemma shape_ok_pass1: "shape_ok (pass1 er)"
  unfolding pass1_def by (rule foldl_inv) (auto intro: shape_ok_init shape_ok_classify)

lemma fix7_keeps:
  "pending7Digit (fix7 oc dd s p) = pending7Digit s"
  "tempAccepted (fix7 oc dd s p) = tempAccepted s"
  "excluded (fix7 oc dd s p) = excluded s"
  by (simp_all add: fix7_def Let_def)

lemma shape_ok_fix7: "shape_ok s \<Longrightarrow> length p = 7 \<Longrightarrow> shape_ok (fix7 oc dd s p)"
  by (auto simp: shape_ok_def fix7_def Let_def)

lemma shape_ok_foldl_fix7:
  "shape_ok s \<Longrightarrow> \<forall>p \<in> set ps. length p = 7 \<Longrightarrow> shape_ok (foldl (fix7 oc dd) s ps)"
  by (induction ps arbitrary: s) (auto intro: shape_ok_fix7)

lemma shape_ok_pass2: "shape_ok s \<Longrightarrow> shape_ok (pass2 oc s)"
  unfolding pass2_def using shape_ok_foldl_fix7 [of s "pending7Digit s"]
  by (auto simp: shape_ok_def)

lemma foldl_fix7_tempAccepted: "tempAccepted (foldl (fix7 oc dd) s ps) = tempAccepted s"
  by (induction ps arbitrary: s) (simp_all add: fix7_keeps)

lemma pass2_tempAccepted: "tempAccepted (pass2 oc s) = tempAccepted s"
  by (simp add: pass2_def foldl_fix7_tempAccepted)

subsection \<open>Eight digits\<close>

lemma classify_eight:
  "list_all is_digit c \<Longrightarrow> length c = 8 \<Longrightarrow> c \<in> set (tempAccepted (classify oc s c))"
  by (auto simp: classify_def Let_def strip_ws_digits all_digits_def)

lemma pass1_eight:
  assumes "c \<in> set (x_unique er)" "list_all is_digit c" "length c = 8"
  shows "c \<in> set (tempAccepted (pass1 er))"
  unfolding pass1_def
proof (rule grows_foldl_from [where x = c])
  show "c \<in> set (x_unique er)" by (rule assms(1))
  show "\<And>t x. grows t (classify (x_occurrenceCount er) t x)" by (rule grows_classify)
  show "\<And>t. c \<in> set (tempAccepted (classify (x_occurrenceCount er) t c))"
    using assms(2,3) by (rule classify_eight)
  show "\<And>t u. c \<in> set (tempAccepted t) \<Longrightarrow> grows t u \<Longrightarrow> c \<in> set (tempAccepted u)"
    by (auto simp: grows_def)
qed

text \<open>
  Claim C1. Every candidate that consists of exactly eight digit characters, leading zeros
  or not, is in the \<open>accepted\<close> list of the result, and is the value of no entry of
  \<open>excluded\<close> or \<open>invalid\<close>.
\<close>

theorem eight_digits_accepted:
  assumes "c \<in> set (x_unique er)" and "list_all is_digit c" and "length c = 8"
  shows "c \<in> set (accepted (validateDeliveryNotes er))
       \<and> c \<notin> set (map e_value (excluded (validateDeliveryNotes er)))
       \<and> c \<notin> set (map e_value (invalid (validateDeliveryNotes er)))"
proof -
  let ?s = "pass2 (x_occurrenceCount er) (pass1 er)"
  have ok: "shape_ok ?s"
    by (rule shape_ok_pass2) (rule shape_ok_pass1)
  have dig: "all_digits c"
    using assms(2,3) by (auto simp: all_digits_def)
  have "c \<in> set (tempAccepted ?s)"
    using pass1_eight [OF assms] by (simp add: pass2_tempAccepted)
  then have a: "c \<in> set (accepted (validateDeliveryNotes er))"
    by (simp add: validateDeliveryNotes_def finish_accepted)
  have b: "c \<notin> set (map e_value (excluded (validateDeliveryNotes er)))"
    using ok assms(3) by (auto simp: validateDeliveryNotes_def finish_excluded shape_ok_def)
  have c: "c \<notin> set (map e_value (invalid (validateDeliveryNotes er)))"
    using ok assms(3) dig by (auto simp: validateDeliveryNotes_def finish_invalid shape_ok_def)
  from a b c show ?thesis by simp
qed

theorem eight_digits_accepted_witness:
  "js ''00012345'' \<in> set (x_unique (extraction_of [js ''26996798'', js ''00012345'']))
   \<and> list_all is_digit (js ''00012345'') \<and> length (js ''00012345'') = 8
   \<and> js ''00012345'' \<in> set (accepted (validateDeliveryNotes (extraction_of [js ''26996798'', js ''00012345''])))
   \<and> js ''00012345'' \<notin> set (map e_value (excluded (validateDeliveryNotes (extraction_of [js ''26996798'', js ''00012345'']))))
   \<and> js ''00012345'' \<notin> set (map e_value (invalid (validateDeliveryNotes (extraction_of [js ''26996798'', js ''00012345'']))))"
  using eight_digits_accepted [of "js ''00012345''" "extraction_of [js ''26996798'', js ''00012345'']"]
  by (simp add: extraction_of_def js_def is_digit_def)

lemma js_nonempty [simp]: "s \<noteq> [] \<Longrightarrow> js s \<noteq> []"
  by (simp add: js_def)

lemma classify_long_zero:
  assumes "list_all is_digit c" "10 < length c" "startsWith0 c" "length (strip_zeros c) \<noteq> 8"
  shows "\<lparr> e_value = c, e_reason = decimal (length c) @ js '' digits (expected 8)'' \<rparr>
           \<in> set (invalid (classify oc s c))"
  using assms by (auto simp: classify_def Let_def strip_ws_digits all_digits_def)

lemma decimal_12: "decimal 12 = js ''12''"
  by (simp add: decimal.simps js_def)

lemmas vdn_defs = validateDeliveryNotes_def pass1_def pass2_def finish_def init_state_def
  classify_def zero_fix_def fix7_def add_extracted_def extraction_of_def
  strip_ws_def is_space_def all_digits_def is_digit_def startsWith0_def strip_zeros_def
  dominantDigit_def firstDigitCounts_def entries_def char0_def is_index_key_def
  dominant_step_def reaches_threshold_def truthy_def count_or_1_def js_def Let_def

text \<open>
  Claim C2, as stated, fails: a 12-digit candidate that starts with \<open>0\<close> and does not
  strip to eight digits is not put into \<open>excluded\<close>; it is put into \<open>invalid\<close> with the
  reason \<open>12 digits (expected 8)\<close>.
\<close>

theorem long_zero_counterexample:
  "excluded (validateDeliveryNotes long_zero_example) = []
   \<and> invalid (validateDeliveryNotes long_zero_example)
       = [\<lparr> e_value = js ''012345678901'', e_reason = js ''12 digits (expected 8)'' \<rparr>]"
proof -
  have len: "length (js ''012345678901'') = 12"
    by (simp add: js_def)
  have d: "decimal (length (js ''012345678901'')) = js ''12''"
    unfolding len by (rule decimal_12)
  show ?thesis
    using d by (simp add: long_zero_example_def vdn_defs)
qed

text \<open>
  Claim C2, amended. A digit string of more than ten characters that starts with \<open>0\<close> and
  whose remainder after the leading zeros does not have length 8 is classified
  \<open>invalid\<close> with the reason \<open>n digits (expected 8)\<close>, \<open>n\<close> its length, and is the value
  of no \<open>excluded\<close> entry.
\<close>

theorem long_zero_invalid:
  assumes "c \<in> set (x_unique er)" and "list_all is_digit c" and "10 < length c"
    and "startsWith0 c" and "length (strip_zeros c) \<noteq> 8"
  shows "\<lparr> e_value = c, e_reason = decimal (length c) @ js '' digits (expected 8)'' \<rparr>
           \<in> set (invalid (validateDeliveryNotes er))
       \<and> c \<notin> set (map e_value (excluded (validateDeliveryNotes er)))"
proof -
  let ?e = "\<lparr> e_value = c, e_reason = decimal (length c) @ js '' digits (expected 8)'' \<rparr>"
  let ?oc = "x_occurrenceCount er"
  have "?e \<in> set (invalid (pass1 er))"
    unfolding pass1_def
  proof (rule grows_foldl_from [where x = c])
    show "c \<in> set (x_unique er)" by (rule assms(1))
    show "\<And>t x. grows t (classify ?oc t x)" by (rule grows_classify)
    show "\<And>t. ?e \<in> set (invalid (classify ?oc t c))"
      using assms(2-5) by (rule classify_long_zero)
    show "\<And>t u. ?e \<in> set (invalid t) \<Longrightarrow> grows t u \<Longrightarrow> ?e \<in> set (invalid u)"
      by (auto simp: grows_def)
  qed
  then have "?e \<in> set (invalid (pass2 ?oc (pass1 er)))"
    using grows_pass2 [of "pass1 er" ?oc] by (auto simp: grows_def)
  then have a: "?e \<in> set (invalid (validateDeliveryNotes er))"
    by (simp add: validateDeliveryNotes_def finish_invalid)
  have "shape_ok (pass2 ?oc (pass1 er))"
    by (rule shape_ok_pass2) (rule shape_ok_pass1)
  then have b: "c \<notin> set (map e_value (excluded (validateDeliveryNotes er)))"
    using assms(3) by (auto simp: validateDeliveryNotes_def finish_excluded shape_ok_def)
  from a b show ?thesis by simp
qed

theorem long_zero_invalid_witness:
  "js ''012345678901'' \<in> set (x_unique long_zero_example)
   \<and> list_all is_digit (js ''012345678901'') \<and> 10 < length (js ''012345678901'')
   \<and> startsWith0 (js ''012345678901'') \<and> length (strip_zeros (js ''012345678901'')) \<noteq> 8
   \<and> \<lparr> e_value = js ''012345678901'',
        e_reason = decimal (length (js ''012345678901'')) @ js '' digits (expected 8)'' \<rparr>
         \<in> set (invalid (validateDeliveryNotes long_zero_example))
   \<and> js ''012345678901'' \<notin> set (map e_value (excluded (validateDeliveryNotes long_zero_example)))"
  using long_zero_invalid [of "js ''012345678901''" long_zero_example]
  by (simp add: long_zero_example_def extraction_of_def js_def is_digit_def startsWith0_def
      strip_zeros_def)


lemma pending_grows: "cl \<in> set (pending7Digit s) \<Longrightarrow> grows s t \<Longrightarrow> cl \<in> set (pending7Digit t)"
  unfolding grows_def by blast








lemma corr_ok_init: "corr_ok (init_state er)"
  by (simp add: corr_ok_def init_state_def)

lemma corr_ok_classify: "corr_ok s \<Longrightarrow> corr_ok (classify oc s n)"
  by (auto simp: corr_ok_def classify_def zero_fix_def Let_def)

lemma corr_ok_fix7: "corr_ok s \<Longrightarrow> corr_ok (fix7 oc dd s p)"
  by (auto simp: corr_ok_def fix7_def Let_def)

lemma corr_ok_pass1: "corr_ok (pass1 er)"
  unfolding pass1_def by (rule foldl_inv) (auto intro: corr_ok_init corr_ok_classify)

lemma corr_ok_pass2: "corr_ok s \<Longrightarrow> corr_ok (pass2 oc s)"
  unfolding pass2_def by (auto intro: foldl_inv corr_ok_fix7)

lemma distinct_map_filter_le1:
  "distinct (map f xs) \<Longrightarrow> length (filter (\<lambda>a. f a = v) xs) \<le> 1"
proof (induction xs)
  case Nil
  show ?case by simp
next
  case (Cons x xs)
  show ?case
  proof (cases "f x = v")
    case True
    with Cons.prems have "v \<notin> f ` set xs" by auto
    then have "filter (\<lambda>a. f a = v) xs = []"
      by (auto simp: filter_empty_conv)
    with True show ?thesis by simp
  next
    case False
    with Cons show ?thesis by simp
  qed
qed

text \<open>What one iteration does with a candidate that strips to eight digits.\<close>

lemma classify_zero_is_zero_fix:
  assumes "list_all is_digit c" "9 \<le> length c" "startsWith0 c" "length (strip_zeros c) = 8"
  shows "\<exists>why cnt. classify oc s c = zero_fix c (strip_zeros c) why cnt s"
  using assms by (auto simp: classify_def Let_def strip_ws_digits all_digits_def)

lemma zero_fix_new:
  assumes "v \<notin> seen s"
  shows "map c_original (autoCorrections (zero_fix c v why cnt s)) = map c_original (autoCorrections s) @ [c]"
    and "map c_corrected (autoCorrections (zero_fix c v why cnt s)) = map c_corrected (autoCorrections s) @ [v]"
    and "accepted (zero_fix c v why cnt s) = accepted s @ [v]"
    and "duplicates (zero_fix c v why cnt s) = duplicates s"
  using assms by (simp_all add: zero_fix_def)

lemma zero_fix_old:
  assumes "v \<in> seen s"
  shows "autoCorrections (zero_fix c v why cnt s) = autoCorrections s"
    and "accepted (zero_fix c v why cnt s) = accepted s"
    and "map d_value (duplicates (zero_fix c v why cnt s)) = map d_value (duplicates s) @ [v]"
  using assms by (simp_all add: zero_fix_def)

lemma zero_fix_recorded:
  "v \<in> seen (zero_fix c v why cnt s) \<and>
   ((\<exists>a \<in> set (autoCorrections (zero_fix c v why cnt s)). c_original a = c \<and> c_corrected a = v)
    \<or> (\<exists>d \<in> set (duplicates (zero_fix c v why cnt s)). d_value d = v
          \<and> d_reason d = js ''Corrected from '' @ c @ js '', already exists''))"
  by (simp add: zero_fix_def)

lemma zero_recorded_grows: "zero_recorded c s \<Longrightarrow> grows s t \<Longrightarrow> zero_recorded c t"
  unfolding zero_recorded_def grows_def by blast

lemma pass1_zero_recorded:
  assumes "c \<in> set (x_unique er)" "list_all is_digit c" "9 \<le> length c" "startsWith0 c"
    "length (strip_zeros c) = 8"
  shows "zero_recorded c (pass1 er)"
  unfolding pass1_def
proof (rule grows_foldl_from [where x = c])
  show "c \<in> set (x_unique er)" by (rule assms(1))
  show "\<And>t x. grows t (classify (x_occurrenceCount er) t x)" by (rule grows_classify)
  show "\<And>t. zero_recorded c (classify (x_occurrenceCount er) t c)"
  proof -
    fix t
    obtain why cnt where "classify (x_occurrenceCount er) t c = zero_fix c (strip_zeros c) why cnt t"
      using classify_zero_is_zero_fix [OF assms(2-5)] by blast
    then show "zero_recorded c (classify (x_occurrenceCount er) t c)"
      using zero_fix_recorded [of "strip_zeros c" c why cnt t] by (simp add: zero_recorded_def)
  qed
  show "\<And>t u. zero_recorded c t \<Longrightarrow> grows t u \<Longrightarrow> zero_recorded c u"
    by (rule zero_recorded_grows)
qed

text \<open>
  Claim C3, as stated, fails: when the stripped value has been accepted before, the
  candidate gets no \<open>autoCorrections\<close> entry, and the value is in \<open>accepted\<close> and in
  \<open>duplicates\<close> at once.
\<close>

theorem zero_dup_counterexample:
  "autoCorrections (validateDeliveryNotes zero_dup_example) = []
   \<and> accepted (validateDeliveryNotes zero_dup_example) = [js ''12345678'']
   \<and> map d_value (duplicates (validateDeliveryNotes zero_dup_example)) = [js ''12345678'']"
  by (simp add: zero_dup_example_def vdn_defs)

text \<open>
  Claim C3, amended. Let a candidate consist of nine or more digits, start with \<open>0\<close>, and
  strip to a value of eight digits. When the loop reaches it and the value has not been
  seen, exactly one correction whose original is the candidate and whose corrected value
  is the stripped value is appended, and the value is appended to \<open>accepted\<close>; when the
  value has been seen, no correction is emitted, \<open>accepted\<close> is left as it is and one
  entry for the value is appended to \<open>duplicates\<close>. In the result the value is in
  \<open>accepted\<close>, at most one correction leads to it, and the candidate is the original of
  a correction to it or is named by a \<open>duplicates\<close> entry for it.
\<close>

theorem leading_zero_correction:
  assumes "c \<in> set (x_unique er)" and "list_all is_digit c" and "9 \<le> length c"
    and "startsWith0 c" and "length (strip_zeros c) = 8"
  shows "strip_zeros c \<in> set (accepted (validateDeliveryNotes er))
     \<and> length (filter (\<lambda>a. c_corrected a = strip_zeros c) (autoCorrections (validateDeliveryNotes er))) \<le> 1
     \<and> ((\<exists>a \<in> set (autoCorrections (validateDeliveryNotes er)).
            c_original a = c \<and> c_corrected a = strip_zeros c)
        \<or> (\<exists>d \<in> set (duplicates (validateDeliveryNotes er)). d_value d = strip_zeros c
              \<and> d_reason d = js ''Corrected from '' @ c @ js '', already exists''))
     \<and> (\<forall>s. strip_zeros c \<notin> seen s \<longrightarrow>
            map c_original (autoCorrections (classify oc s c)) = map c_original (autoCorrections s) @ [c]
          \<and> map c_corrected (autoCorrections (classify oc s c))
              = map c_corrected (autoCorrections s) @ [strip_zeros c]
          \<and> accepted (classify oc s c) = accepted s @ [strip_zeros c]
          \<and> duplicates (classify oc s c) = duplicates s)
     \<and> (\<forall>s. strip_zeros c \<in> seen s \<longrightarrow>
            autoCorrections (classify oc s c) = autoCorrections s
          \<and> accepted (classify oc s c) = accepted s
          \<and> map d_value (duplicates (classify oc s c)) = map d_value (duplicates s) @ [strip_zeros c])"
proof -
  let ?v = "strip_zeros c"
  let ?s = "pass2 (x_occurrenceCount er) (pass1 er)"
  have ok: "corr_ok ?s"
    by (rule corr_ok_pass2) (rule corr_ok_pass1)
  have rec: "zero_recorded c ?s"
    using pass1_zero_recorded [OF assms] grows_pass2 by (rule zero_recorded_grows)
  have a: "?v \<in> set (accepted (validateDeliveryNotes er))"
    using rec ok by (auto simp: zero_recorded_def corr_ok_def validateDeliveryNotes_def finish_accepted)
  have b: "length (filter (\<lambda>a. c_corrected a = ?v) (autoCorrections (validateDeliveryNotes er))) \<le> 1"
  proof -
    have "distinct (map c_corrected (autoCorrections ?s))"
      using ok by (simp add: corr_ok_def)
    then have "length (filter (\<lambda>a. c_corrected a = ?v) (autoCorrections ?s)) \<le> 1"
      by (rule distinct_map_filter_le1)
    then show ?thesis
      by (simp add: validateDeliveryNotes_def finish_autoCorrections)
  qed
  have c: "(\<exists>a \<in> set (autoCorrections (validateDeliveryNotes er)). c_original a = c \<and> c_corrected a = ?v)
        \<or> (\<exists>d \<in> set (duplicates (validateDeliveryNotes er)). d_value d = ?v
              \<and> d_reason d = js ''Corrected from '' @ c @ js '', already exists'')"
    using rec finish_duplicates [of ?s er]
    unfolding zero_recorded_def validateDeliveryNotes_def finish_autoCorrections by blast
  have d: "\<forall>s. ?v \<notin> seen s \<longrightarrow>
            map c_original (autoCorrections (classify oc s c)) = map c_original (autoCorrections s) @ [c]
          \<and> map c_corrected (autoCorrections (classify oc s c)) = map c_corrected (autoCorrections s) @ [?v]
          \<and> accepted (classify oc s c) = accepted s @ [?v]
          \<and> duplicates (classify oc s c) = duplicates s"
  proof (intro allI impI)
    fix s :: vstate assume new: "?v \<notin> seen s"
    obtain why cnt where "classify oc s c = zero_fix c ?v why cnt s"
      using classify_zero_is_zero_fix [OF assms(2-5)] by blast
    then show "map c_original (autoCorrections (classify oc s c)) = map c_original (autoCorrections s) @ [c]
          \<and> map c_corrected (autoCorrections (classify oc s c)) = map c_corrected (autoCorrections s) @ [?v]
          \<and> accepted (classify oc s c) = accepted s @ [?v]
          \<and> duplicates (classify oc s c) = duplicates s"
      using zero_fix_new [OF new] by simp
  qed
  have e: "\<forall>s. ?v \<in> seen s \<longrightarrow>
            autoCorrections (classify oc s c) = autoCorrections s
          \<and> accepted (classify oc s c) = accepted s
          \<and> map d_value (duplicates (classify oc s c)) = map d_value (duplicates s) @ [?v]"
  proof (intro allI impI)
    fix s :: vstate assume old: "?v \<in> seen s"
    obtain why cnt where "classify oc s c = zero_fix c ?v why cnt s"
      using classify_zero_is_zero_fix [OF assms(2-5)] by blast
    then show "autoCorrections (classify oc s c) = autoCorrections s
          \<and> accepted (classify oc s c) = accepted s
          \<and> map d_value (duplicates (classify oc s c)) = map d_value (duplicates s) @ [?v]"
      using zero_fix_old [OF old] by simp
  qed
  from a b c d e show ?thesis by blast
qed

theorem leading_zero_correction_witness:
  "js ''0080652245'' \<in> set (x_unique zero_fix_example)
   \<and> list_all is_digit (js ''0080652245'') \<and> 9 \<le> length (js ''0080652245'')
   \<and> startsWith0 (js ''0080652245'') \<and> length (strip_zeros (js ''0080652245'')) = 8
   \<and> strip_zeros (js ''0080652245'') = js ''80652245''
   \<and> js ''80652245'' \<in> set (accepted (validateDeliveryNotes zero_fix_example))
   \<and> length (filter (\<lambda>a. c_corrected a = js ''80652245'')
        (autoCorrections (validateDeliveryNotes zero_fix_example))) \<le> 1
   \<and> accepted (classify Map.empty (init_state zero_fix_example) (js ''0080652245'')) = [js ''80652245'']
   \<and> map c_original (autoCorrections (classify Map.empty (init_state zero_fix_example) (js ''0080652245'')))
       = [js ''0080652245'']"
proof -
  let ?c = "js ''0080652245''"
  have h1: "?c \<in> set (x_unique zero_fix_example)"
    by (simp add: zero_fix_example_def extraction_of_def)
  have h2: "list_all is_digit ?c"
    by (simp add: js_def is_digit_def)
  have h3: "9 \<le> length ?c"
    by (simp add: js_def)
  have h4: "startsWith0 ?c"
    by (simp add: js_def startsWith0_def)
  have v: "strip_zeros ?c = js ''80652245''"
    by (simp add: js_def strip_zeros_def)
  have h5: "length (strip_zeros ?c) = 8"
    by (simp add: v) (simp add: js_def)
  have new: "strip_zeros ?c \<notin> seen (init_state zero_fix_example)"
    by (simp add: init_state_def)
  note t = leading_zero_correction [OF h1 h2 h3 h4 h5, of Map.empty]
  from t have step: "\<forall>s. strip_zeros ?c \<notin> seen s \<longrightarrow>
            map c_original (autoCorrections (classify Map.empty s ?c)) = map c_original (autoCorrections s) @ [?c]
          \<and> map c_corrected (autoCorrections (classify Map.empty s ?c))
              = map c_corrected (autoCorrections s) @ [strip_zeros ?c]
          \<and> accepted (classify Map.empty s ?c) = accepted s @ [strip_zeros ?c]
          \<and> duplicates (classify Map.empty s ?c) = duplicates s"
    by blast
  from step new have here:
    "map c_original (autoCorrections (classify Map.empty (init_state zero_fix_example) ?c))
       = map c_original (autoCorrections (init_state zero_fix_example)) @ [?c]
     \<and> accepted (classify Map.empty (init_state zero_fix_example) ?c)
       = accepted (init_state zero_fix_example) @ [strip_zeros ?c]"
    by blast
  from t have res: "strip_zeros ?c \<in> set (accepted (validateDeliveryNotes zero_fix_example))
     \<and> length (filter (\<lambda>a. c_corrected a = strip_zeros ?c)
          (autoCorrections (validateDeliveryNotes zero_fix_example))) \<le> 1"
    by blast
  show ?thesis
    using h1 h2 h3 h4 h5 v res here by (simp add: init_state_def)
qed

subsection \<open>Seven digits that start with the dominant digit\<close>

lemma js_includes_mid: "js_includes (pre @ sub @ post) sub"
proof (induction pre)
  case Nil
  show ?case
  proof (cases "sub @ post")
    case Nil
    then show ?thesis by simp
  next
    case (Cons a list)
    have "take (length sub) (sub @ post) = sub" by simp
    then have "take (length sub) (a # list) = sub" by (simp only: Cons)
    then have "js_includes (a # list) sub" by simp
    then show ?thesis by (simp only: append_Nil Cons)
  qed
next
  case (Cons a pre)
  then show ?case by simp
qed

lemma already_starts_with_included:
  "js_includes (js ''7 digits - already starts with '' @ w) (js ''already starts with'')"
proof -
  have "js ''7 digits - already starts with '' @ w
      = js ''7 digits - '' @ js ''already starts with'' @ (js '' '' @ w)"
    by (simp add: js_def)
  then show ?thesis
    using js_includes_mid by simp
qed

lemma orig_ok_classify: "length c = 7 \<Longrightarrow> orig_ok c s \<Longrightarrow> orig_ok c (classify oc s n)"
  by (auto simp: orig_ok_def classify_def zero_fix_def Let_def)

lemma orig_ok_pass1:
  assumes "length c = 7"
  shows "orig_ok c (pass1 er)"
  unfolding pass1_def
proof (rule foldl_inv)
  show "orig_ok c (init_state er)"
    by (simp add: orig_ok_def init_state_def)
  show "\<And>t x. orig_ok c t \<Longrightarrow> orig_ok c (classify (x_occurrenceCount er) t x)"
    using assms by (rule orig_ok_classify)
qed

lemma orig_ok_fix7: "char0 c = d \<Longrightarrow> orig_ok c s \<Longrightarrow> orig_ok c (fix7 oc (Some d) s p)"
  by (auto simp: orig_ok_def fix7_def Let_def)

lemma acc8_classify: "acc8 s \<Longrightarrow> acc8 (classify oc s n)"
  by (auto simp: acc8_def classify_def zero_fix_def Let_def)

lemma acc8_pass1: "acc8 (pass1 er)"
  unfolding pass1_def
proof (rule foldl_inv)
  show "acc8 (init_state er)"
    by (simp add: acc8_def init_state_def)
  show "\<And>t x. acc8 t \<Longrightarrow> acc8 (classify (x_occurrenceCount er) t x)"
    by (rule acc8_classify)
qed

lemma acc8_fix7: "length d = 1 \<Longrightarrow> length p = 7 \<Longrightarrow> acc8 s \<Longrightarrow> acc8 (fix7 oc (Some d) s p)"
  by (auto simp: acc8_def fix7_def Let_def)

lemma fix7_starts_with_dominant:
  assumes "char0 c = d" "c \<noteq> []"
  shows "\<lparr> e_value = c, e_reason = js ''7 digits - already starts with '' @ [39] @ d @ [39]
            @ js '' (missing last digit, not first)'' \<rparr> \<in> set (invalid (fix7 oc (Some d) s c))"
  using assms by (cases c) (auto simp: fix7_def Let_def truthy_def char0_def)

lemma classify_seven:
  "list_all is_digit c \<Longrightarrow> length c = 7 \<Longrightarrow> c \<in> set (pending7Digit (classify oc s c))"
  by (auto simp: classify_def Let_def strip_ws_digits all_digits_def startsWith0_def)

lemma pass1_seven:
  assumes "c \<in> set (x_unique er)" "list_all is_digit c" "length c = 7"
  shows "c \<in> set (pending7Digit (pass1 er))"
  unfolding pass1_def
proof (rule grows_foldl_from [where x = c])
  show "c \<in> set (x_unique er)" by (rule assms(1))
  show "\<And>t x. grows t (classify (x_occurrenceCount er) t x)" by (rule grows_classify)
  show "\<And>t. c \<in> set (pending7Digit (classify (x_occurrenceCount er) t c))"
    using assms(2,3) by (rule classify_seven)
  show "\<And>t u. c \<in> set (pending7Digit t) \<Longrightarrow> grows t u \<Longrightarrow> c \<in> set (pending7Digit u)"
    by (rule pending_grows)
qed

lemma acc_corr_classify: "acc_corr s \<Longrightarrow> acc_corr (classify oc s n)"
  by (auto simp: acc_corr_def classify_def zero_fix_def Let_def)

lemma acc_corr_fix7: "acc_corr s \<Longrightarrow> acc_corr (fix7 oc dd s p)"
  by (auto simp: acc_corr_def fix7_def Let_def)

lemma acc_corr_pass1: "acc_corr (pass1 er)"
  unfolding pass1_def
proof (rule foldl_inv)
  show "acc_corr (init_state er)"
    by (simp add: acc_corr_def init_state_def)
  show "\<And>t x. acc_corr t \<Longrightarrow> acc_corr (classify (x_occurrenceCount er) t x)"
    by (rule acc_corr_classify)
qed

lemma acc_corr_foldl_fix7: "acc_corr s \<Longrightarrow> acc_corr (foldl (fix7 oc dd) s ps)"
  by (rule foldl_inv) (auto intro: acc_corr_fix7)

lemma fix7_dominant_step:
  assumes "char0 c = d" "c \<noteq> []"
  shows "fix7 oc (Some d) s c
     = s\<lparr> invalid := invalid s @
           [\<lparr> e_value = c, e_reason = js ''7 digits - already starts with '' @ [39] @ d @ [39]
                @ js '' (missing last digit, not first)'' \<rparr>] \<rparr>"
  using assms by (cases c) (auto simp: fix7_def Let_def truthy_def char0_def)

text \<open>
  Claim C4. When the first loop leaves a dominant first digit \<open>d\<close>, the second loop runs
  with it, and its step on a pending 7-digit candidate \<open>c\<close> whose first character is
  \<open>d\<close> appends the entry with the reason \<open>already starts with\<close> to \<open>invalid\<close> and changes
  nothing else: \<open>seen\<close>, \<open>accepted\<close>, \<open>autoCorrections\<close> and \<open>duplicates\<close> are as before,
  so \<open>d\<close> is not prepended. In the result the entry is in \<open>invalid\<close>, no correction has
  \<open>c\<close> as its original, \<open>c\<close> is not accepted, and \<open>accepted\<close> consists of the corrected
  values of the corrections and of the 8-digit candidates; the value \<open>d @ c\<close> is accepted
  only when it is such a candidate or the correction of another original.
\<close>

theorem seven_digit_dominant_invalid:
  assumes "c \<in> set (pending7Digit (pass1 er))"
    and "dominantDigit (pass1 er) = Some d" and "char0 c = d"
  shows "\<lparr> e_value = c, e_reason = js ''7 digits - already starts with '' @ [39] @ d @ [39]
            @ js '' (missing last digit, not first)'' \<rparr> \<in> set (invalid (validateDeliveryNotes er))
     \<and> js_includes (js ''7 digits - already starts with '' @ [39] @ d @ [39]
            @ js '' (missing last digit, not first)'') (js ''already starts with'')
     \<and> c \<notin> set (map c_original (autoCorrections (validateDeliveryNotes er)))
     \<and> c \<notin> set (accepted (validateDeliveryNotes er))
     \<and> validateDeliveryNotes er
         = finish er (foldl (fix7 (x_occurrenceCount er) (Some d)) (pass1 er) (pending7Digit (pass1 er)))
     \<and> (\<forall>s. fix7 (x_occurrenceCount er) (Some d) s c
            = s\<lparr> invalid := invalid s @
                  [\<lparr> e_value = c, e_reason = js ''7 digits - already starts with '' @ [39] @ d @ [39]
                       @ js '' (missing last digit, not first)'' \<rparr>] \<rparr>)
     \<and> accepted (validateDeliveryNotes er)
         = map c_corrected (autoCorrections (validateDeliveryNotes er)) @ tempAccepted (pass1 er)
     \<and> (d @ c \<in> set (accepted (validateDeliveryNotes er)) \<longrightarrow>
           d @ c \<in> set (tempAccepted (pass1 er))
           \<or> (\<exists>a \<in> set (autoCorrections (validateDeliveryNotes er)).
                 c_corrected a = d @ c \<and> c_original a \<noteq> c))"
proof -
  let ?oc = "x_occurrenceCount er"
  let ?s1 = "pass1 er"
  let ?s2 = "foldl (fix7 ?oc (Some d)) ?s1 (pending7Digit ?s1)"
  let ?e = "\<lparr> e_value = c, e_reason = js ''7 digits - already starts with '' @ [39] @ d @ [39]
            @ js '' (missing last digit, not first)'' \<rparr>"
  have mem: "c \<in> set (pending7Digit ?s1)"
    by (rule assms(1))
  then have "pending7Digit ?s1 \<noteq> []" by auto
  then have p2: "pass2 ?oc ?s1 = ?s2"
    by (simp add: pass2_def assms(2))
  have sh: "shape_ok ?s1" by (rule shape_ok_pass1)
  then have p7: "\<And>p. p \<in> set (pending7Digit ?s1) \<Longrightarrow> length p = 7"
    by (simp add: shape_ok_def)
  have len: "length c = 7" using mem by (rule p7)
  have ne: "c \<noteq> []" using len by auto
  have d1: "length d = 1"
    using len assms(3) by (cases c) (auto simp: char0_def)
  have inv: "?e \<in> set (invalid ?s2)"
  proof (rule grows_foldl_from [where x = c])
    show "c \<in> set (pending7Digit ?s1)" by (rule mem)
    show "\<And>t x. grows t (fix7 ?oc (Some d) t x)" by (rule grows_fix7)
    show "\<And>t. ?e \<in> set (invalid (fix7 ?oc (Some d) t c))"
      using assms(3) ne by (rule fix7_starts_with_dominant)
    show "\<And>t u. ?e \<in> set (invalid t) \<Longrightarrow> grows t u \<Longrightarrow> ?e \<in> set (invalid u)"
      by (auto simp: grows_def)
  qed
  have orig: "orig_ok c ?s2"
  proof (rule foldl_inv)
    show "orig_ok c ?s1" using len by (rule orig_ok_pass1)
    show "\<And>t x. orig_ok c t \<Longrightarrow> orig_ok c (fix7 ?oc (Some d) t x)"
      using assms(3) by (rule orig_ok_fix7)
  qed
  have a8: "acc8 ?s2"
  proof (rule foldl_inv)
    show "acc8 ?s1" by (rule acc8_pass1)
    show "\<And>t x. acc8 t \<Longrightarrow> x \<in> set (pending7Digit ?s1) \<Longrightarrow> acc8 (fix7 ?oc (Some d) t x)"
      using d1 p7 by (simp add: acc8_fix7)
  qed
  have ac: "acc_corr ?s2"
    using acc_corr_pass1 by (rule acc_corr_foldl_fix7)
  have t8: "\<And>a. a \<in> set (tempAccepted ?s2) \<Longrightarrow> length a = 8"
    using sh by (simp add: foldl_fix7_tempAccepted shape_ok_def)
  have r1: "?e \<in> set (invalid (validateDeliveryNotes er))"
    using inv by (simp add: validateDeliveryNotes_def p2 finish_invalid)
  have r2: "js_includes (js ''7 digits - already starts with '' @ [39] @ d @ [39]
            @ js '' (missing last digit, not first)'') (js ''already starts with'')"
    by (rule already_starts_with_included)
  have r3: "c \<notin> set (map c_original (autoCorrections (validateDeliveryNotes er)))"
    using orig by (auto simp: validateDeliveryNotes_def p2 finish_autoCorrections orig_ok_def)
  have r4: "c \<notin> set (accepted (validateDeliveryNotes er))"
    using a8 t8 len by (auto simp: validateDeliveryNotes_def p2 finish_accepted acc8_def)
  have r5: "validateDeliveryNotes er = finish er ?s2"
    by (simp add: validateDeliveryNotes_def p2)
  have r6: "\<forall>s. fix7 ?oc (Some d) s c = s\<lparr> invalid := invalid s @ [?e] \<rparr>"
    using fix7_dominant_step [OF assms(3) ne] by blast
  have r7: "accepted (validateDeliveryNotes er)
         = map c_corrected (autoCorrections (validateDeliveryNotes er)) @ tempAccepted ?s1"
    using ac by (simp add: r5 finish_accepted finish_autoCorrections acc_corr_def
        foldl_fix7_tempAccepted)
  have r8: "d @ c \<in> set (accepted (validateDeliveryNotes er)) \<longrightarrow>
           d @ c \<in> set (tempAccepted ?s1)
           \<or> (\<exists>a \<in> set (autoCorrections (validateDeliveryNotes er)).
                 c_corrected a = d @ c \<and> c_original a \<noteq> c)"
  proof
    assume "d @ c \<in> set (accepted (validateDeliveryNotes er))"
    then have "d @ c \<in> set (tempAccepted ?s1)
        \<or> d @ c \<in> c_corrected ` set (autoCorrections (validateDeliveryNotes er))"
      unfolding r7 by auto
    then show "d @ c \<in> set (tempAccepted ?s1)
           \<or> (\<exists>a \<in> set (autoCorrections (validateDeliveryNotes er)).
                 c_corrected a = d @ c \<and> c_original a \<noteq> c)"
      using r3 by auto
  qed
  from r1 r2 r3 r4 r5 r6 r7 r8 show ?thesis by blast
qed

lemma dominant_example_digit: "dominantDigit (pass1 dominant_example) = Some (js ''2'')"
  by (simp add: dominant_example_def vdn_defs upt_rec)

theorem seven_digit_dominant_invalid_witness:
  "js ''2715703'' \<in> set (pending7Digit (pass1 dominant_example))
   \<and> dominantDigit (pass1 dominant_example) = Some (js ''2'')
   \<and> char0 (js ''2715703'') = js ''2''
   \<and> \<lparr> e_value = js ''2715703'', e_reason = js ''7 digits - already starts with '' @ [39] @ js ''2''
          @ [39] @ js '' (missing last digit, not first)'' \<rparr>
        \<in> set (invalid (validateDeliveryNotes dominant_example))
   \<and> js ''2715703'' \<notin> set (map c_original (autoCorrections (validateDeliveryNotes dominant_example)))
   \<and> js ''2715703'' \<notin> set (accepted (validateDeliveryNotes dominant_example))
   \<and> accepted (validateDeliveryNotes dominant_example)
       = map c_corrected (autoCorrections (validateDeliveryNotes dominant_example))
         @ [js ''26996798'', js ''27008029'', js ''27005099'']
   \<and> accepted (fix7 Map.empty (Some (js ''2'')) (pass1 dominant_example) (js ''2715703''))
       = accepted (pass1 dominant_example)
   \<and> seen (fix7 Map.empty (Some (js ''2'')) (pass1 dominant_example) (js ''2715703''))
       = seen (pass1 dominant_example)"
proof -
  have h1: "js ''2715703'' \<in> set (pending7Digit (pass1 dominant_example))"
    by (simp add: dominant_example_def vdn_defs)
  have h3: "char0 (js ''2715703'') = js ''2''"
    by (simp add: js_def char0_def)
  have t: "tempAccepted (pass1 dominant_example) = [js ''26996798'', js ''27008029'', js ''27005099'']"
    by (simp add: dominant_example_def vdn_defs)
  have oc: "x_occurrenceCount dominant_example = Map.empty"
    by (simp add: dominant_example_def extraction_of_def)
  note th = seven_digit_dominant_invalid [OF h1 dominant_example_digit h3]
  from th have step: "\<forall>s. fix7 (x_occurrenceCount dominant_example) (Some (js ''2'')) s (js ''2715703'')
            = s\<lparr> invalid := invalid s @
                  [\<lparr> e_value = js ''2715703'', e_reason = js ''7 digits - already starts with '' @ [39]
                       @ js ''2'' @ [39] @ js '' (missing last digit, not first)'' \<rparr>] \<rparr>"
    by blast
  have s1: "accepted (fix7 Map.empty (Some (js ''2'')) (pass1 dominant_example) (js ''2715703''))
       = accepted (pass1 dominant_example)"
    and s2: "seen (fix7 Map.empty (Some (js ''2'')) (pass1 dominant_example) (js ''2715703''))
       = seen (pass1 dominant_example)"
    using step unfolding oc by simp_all
  from th have acc: "accepted (validateDeliveryNotes dominant_example)
       = map c_corrected (autoCorrections (validateDeliveryNotes dominant_example))
         @ tempAccepted (pass1 dominant_example)"
    by blast
  from th have rest: "\<lparr> e_value = js ''2715703'', e_reason = js ''7 digits - already starts with '' @ [39] @ js ''2''
          @ [39] @ js '' (missing last digit, not first)'' \<rparr>
        \<in> set (invalid (validateDeliveryNotes dominant_example))
   \<and> js ''2715703'' \<notin> set (map c_original (autoCorrections (validateDeliveryNotes dominant_example)))
   \<and> js ''2715703'' \<notin> set (accepted (validateDeliveryNotes dominant_example))"
    by blast
  from h1 h3 dominant_example_digit rest acc [unfolded t] s1 s2 show ?thesis by blast
qed

lemmas grp_defs = groupPagesByCR_def state_at_def closed_groups_def group_step_def orphan_def
  lookahead_def truthy_def mk_page_def getCRType_def matches_EP1_def matches_H01_def js_def
  is_digit_def Let_def

section \<open>Properties of the page grouping\<close>

lemma state_at_0: "state_at pages 0 = \<lparr> groups = [], currentGroup = None \<rparr>"
  by (simp add: state_at_def)

lemma state_at_Suc: "state_at pages (Suc i) = group_step pages (state_at pages i) i"
  by (simp add: state_at_def)

lemma lookahead_truthy: "lookahead pages i = Some f \<Longrightarrow> truthy (Some f)"
proof -
  assume a: "lookahead pages i = Some f"
  let ?xs = "filter (\<lambda>p. truthy (cr p)) (take 2 (drop (i + 1) pages))"
  from a obtain p ps where ps: "?xs = p # ps" and f: "cr p = Some f"
    by (auto simp: lookahead_def split: list.splits)
  have "p \<in> set ?xs" unfolding ps by simp
  then have "truthy (cr p)" by simp
  with f show ?thesis by simp
qed

lemma orphan_cases:
  "(lookahead pages i = None \<and> orphan pages st i = st)
   \<or> (\<exists>f. lookahead pages i = Some f \<and> truthy (Some f)
         \<and> orphan pages st i = st\<lparr> currentGroup := Some \<lparr> g_cr = Some f,
               g_crType = Some (getCRType f), g_pages = [pages ! i] \<rparr> \<rparr>)"
proof (cases "lookahead pages i")
  case None
  then show ?thesis by (simp add: orphan_def truthy_def)
next
  case (Some f)
  then have "truthy (Some f)" by (rule lookahead_truthy)
  with Some show ?thesis by (simp add: orphan_def)
qed

lemma ginv_init: "ginv \<lparr> groups = [], currentGroup = None \<rparr>"
  by (simp add: ginv_def all_groups_def)

lemma ginv_orphan:
  assumes "currentGroup st = None" "ginv st"
  shows "ginv (orphan pages st i)"
  using orphan_cases [of pages i st] assms
  by (auto simp: ginv_def all_groups_def group_ok_def)

lemma ginv_step: "ginv st \<Longrightarrow> ginv (group_step pages st i)"
proof (cases "currentGroup st")
  case None
  assume "ginv st"
  with None show ?thesis
    using ginv_orphan [of st pages i]
    by (auto simp: group_step_def Let_def) (simp add: ginv_def all_groups_def group_ok_def)
next
  case (Some g)
  assume "ginv st"
  with Some show ?thesis
    by (auto simp: group_step_def Let_def ginv_def all_groups_def group_ok_def)
qed

lemma ginv_state_at: "ginv (state_at pages i)"
  unfolding state_at_def by (rule foldl_inv) (auto intro: ginv_init ginv_step)

lemma closed_groups_all: "ginv st \<Longrightarrow> closed_groups st = all_groups st"
  by (auto simp: closed_groups_def all_groups_def ginv_def group_ok_def split: option.splits)

subsection \<open>Merging keeps the pages under their identifiers\<close>

lemma list_all_merge_into:
  "list_all group_ok ms \<Longrightarrow> group_ok g \<Longrightarrow> list_all group_ok (merge_into ms g)"
  by (induction ms) (auto simp: group_ok_def)

lemma list_all_merged:
  "list_all group_ok acc \<Longrightarrow> list_all group_ok gs \<Longrightarrow> list_all group_ok (foldl merge_into acc gs)"
  by (induction gs arbitrary: acc) (auto intro: list_all_merge_into)

lemma filed_pages_Nil: "filed_pages [] = {}"
  by (simp add: filed_pages_def)

lemma filed_pages_Cons:
  "filed_pages (g # gs) = (\<lambda>p. (g_cr g, p)) ` set (g_pages g) \<union> filed_pages gs"
  by (simp add: filed_pages_def)

lemma filed_pages_append: "filed_pages (xs @ ys) = filed_pages xs \<union> filed_pages ys"
  by (simp add: filed_pages_def)

lemma filed_pages_merge_into: "filed_pages (merge_into ms g) = filed_pages ms \<union> filed_pages [g]"
proof (induction ms)
  case Nil
  show ?case by (simp add: filed_pages_Nil)
next
  case (Cons m ms)
  show ?case
  proof (cases "g_cr m = g_cr g")
    case True
    then show ?thesis
      by (simp add: filed_pages_Cons filed_pages_Nil image_Un Un_ac)
  next
    case False
    then show ?thesis
      by (simp add: filed_pages_Cons [of m] Cons.IH Un_assoc)
  qed
qed

lemma filed_pages_merged: "filed_pages (foldl merge_into acc gs) = filed_pages acc \<union> filed_pages gs"
proof (induction gs arbitrary: acc)
  case Nil
  show ?case by (simp add: filed_pages_Nil)
next
  case (Cons g gs)
  have "filed_pages (g # gs) = filed_pages [g] \<union> filed_pages gs"
    using filed_pages_append [of "[g]" gs] by simp
  then show ?case
    by (simp add: Cons.IH filed_pages_merge_into Un_assoc)
qed

lemma filed_pages_result: "filed_pages (groupPagesByCR pages) = filed_pages (all_groups (state_at pages (length pages)))"
  by (simp add: groupPagesByCR_def closed_groups_all ginv_state_at filed_pages_merged filed_pages_Nil)

lemma filed_pages_empty: "list_all group_ok gs \<Longrightarrow> filed_pages gs = {} \<Longrightarrow> gs = []"
  by (cases gs) (auto simp: filed_pages_Cons group_ok_def)

text \<open>
  Claim C10. Every group that is returned has a truthy identifier and at least one page,
  so \<^verbatim>\<open>processFile\<close> skips none of them; and pages none of which carries an identifier
  give no group at all.
\<close>

theorem groups_have_identifier:
  "(\<forall>G \<in> set (groupPagesByCR pages). g_cr G \<noteq> None \<and> truthy (g_cr G) \<and> g_pages G \<noteq> [])
   \<and> filter skipped (groupPagesByCR pages) = []
   \<and> ((\<forall>p \<in> set pages. \<not> truthy (cr p)) \<longrightarrow> groupPagesByCR pages = [])"
proof -
  let ?st = "state_at pages (length pages)"
  have inv: "ginv ?st" by (rule ginv_state_at)
  then have "list_all group_ok (closed_groups ?st)"
    by (simp add: closed_groups_all ginv_def)
  then have ok: "list_all group_ok (groupPagesByCR pages)"
    unfolding groupPagesByCR_def by (intro list_all_merged) simp_all
  have a: "\<forall>G \<in> set (groupPagesByCR pages). g_cr G \<noteq> None \<and> truthy (g_cr G) \<and> g_pages G \<noteq> []"
    using ok by (auto simp: list_all_iff group_ok_def truthy_def split: option.splits)
  have b: "filter skipped (groupPagesByCR pages) = []"
    using a by (auto simp: filter_empty_conv skipped_def)
  have c: "(\<forall>p \<in> set pages. \<not> truthy (cr p)) \<longrightarrow> groupPagesByCR pages = []"
  proof
    assume none: "\<forall>p \<in> set pages. \<not> truthy (cr p)"
    have "filed_pages (all_groups (state_at pages i)) = {}" if "i \<le> length pages" for i
      using that
    proof (induction i)
      case 0
      show ?case by (simp add: state_at_0 all_groups_def filed_pages_Nil)
    next
      case (Suc i)
      then have i: "i < length pages" and IH: "filed_pages (all_groups (state_at pages i)) = {}"
        by simp_all
      have gi: "ginv (state_at pages i)" by (rule ginv_state_at)
      have e: "all_groups (state_at pages i) = []"
        using gi IH by (intro filed_pages_empty) (simp_all add: ginv_def)
      then have cur: "currentGroup (state_at pages i) = None"
        by (auto simp: all_groups_def split: option.splits)
      have "\<not> truthy (cr (pages ! i))" using none i by simp
      moreover have "lookahead pages i = None"
      proof -
        have "set (take 2 (drop (i + 1) pages)) \<subseteq> set pages"
          by (meson set_take_subset set_drop_subset subset_trans)
        then have "filter (\<lambda>p. truthy (cr p)) (take 2 (drop (i + 1) pages)) = []"
          using none by (auto simp: filter_empty_conv)
        then show ?thesis by (simp add: lookahead_def)
      qed
      ultimately have "state_at pages (Suc i) = state_at pages i"
        using cur by (simp add: state_at_Suc group_step_def orphan_def truthy_def)
      with IH show ?case by simp
    qed
    then have "filed_pages (groupPagesByCR pages) = {}"
      by (simp add: filed_pages_result)
    with ok show "groupPagesByCR pages = []"
      by (rule filed_pages_empty)
  qed
  from a b c show ?thesis by blast
qed

theorem groups_have_identifier_witness:
  "groupPagesByCR orphan_pages \<noteq> []
   \<and> list_all (\<lambda>G. g_cr G \<noteq> None \<and> truthy (g_cr G) \<and> g_pages G \<noteq> []) (groupPagesByCR orphan_pages)
   \<and> filter skipped (groupPagesByCR orphan_pages) = []
   \<and> list_all (\<lambda>p. \<not> truthy (cr p)) blank_pages
   \<and> groupPagesByCR blank_pages = []"
proof -
  have ne: "groupPagesByCR orphan_pages \<noteq> []"
    by (simp add: orphan_pages_def grp_defs upt_rec)
  have h: "list_all (\<lambda>p. \<not> truthy (cr p)) blank_pages"
    by (simp add: blank_pages_def mk_page_def truthy_def)
  show ?thesis
    using ne h groups_have_identifier [of orphan_pages] groups_have_identifier [of blank_pages]
    by (simp add: list_all_iff)
qed

subsection \<open>A page without an identifier\<close>

lemma step_appends:
  assumes "\<not> truthy (cr (pages ! i))" "currentGroup st = Some g" "ginv st"
  shows "group_step pages st i = st\<lparr> currentGroup := Some (g\<lparr> g_pages := g_pages g @ [pages ! i] \<rparr>) \<rparr>"
  using assms by (simp add: group_step_def Let_def ginv_def all_groups_def group_ok_def)

lemma step_orphan:
  assumes "\<not> truthy (cr (pages ! i))" "currentGroup st = None"
  shows "group_step pages st i = orphan pages st i"
  using assms by (simp add: group_step_def Let_def)

lemma filed_pages_step:
  assumes "ginv st"
  shows "filed_pages (all_groups st) \<subseteq> filed_pages (all_groups (group_step pages st i))"
proof (cases "currentGroup st")
  case None
  then have "groups st = []" using assms by (simp add: ginv_def)
  with None show ?thesis
    by (simp add: all_groups_def filed_pages_Nil)
next
  case (Some g)
  then have "g_pages g \<noteq> []" using assms by (simp add: ginv_def all_groups_def group_ok_def)
  with Some show ?thesis
    by (auto simp: group_step_def Let_def all_groups_def filed_pages_append filed_pages_Cons)
qed

lemma filed_pages_mono:
  "i \<le> k \<Longrightarrow> filed_pages (all_groups (state_at pages i)) \<subseteq> filed_pages (all_groups (state_at pages k))"
proof (induction k)
  case 0
  then show ?case by simp
next
  case (Suc k)
  show ?case
  proof (cases "i = Suc k")
    case True
    then show ?thesis by simp
  next
    case False
    with Suc.prems have "i \<le> k" by simp
    then have "filed_pages (all_groups (state_at pages i)) \<subseteq> filed_pages (all_groups (state_at pages k))"
      by (rule Suc.IH)
    also have "\<dots> \<subseteq> filed_pages (all_groups (state_at pages (Suc k)))"
      unfolding state_at_Suc using ginv_state_at by (rule filed_pages_step)
    finally show ?thesis .
  qed
qed

lemma starts_with_step:
  assumes "ginv st" "starts_with (all_groups st) c p"
  shows "starts_with (all_groups (group_step pages st i)) c p"
proof (cases "currentGroup st")
  case None
  then have "groups st = []" using assms(1) by (simp add: ginv_def)
  with None assms(2) show ?thesis
    by (simp add: all_groups_def starts_with_def)
next
  case (Some g)
  then have ne: "g_pages g \<noteq> []" using assms(1) by (simp add: ginv_def all_groups_def group_ok_def)
  show ?thesis
  proof (cases "groups st")
    case Nil
    with Some ne assms(2) show ?thesis
      by (auto simp: group_step_def Let_def all_groups_def starts_with_def split: list.splits)
  next
    case (Cons h hs)
    with Some ne assms(2) show ?thesis
      by (auto simp: group_step_def Let_def all_groups_def starts_with_def)
  qed
qed

lemma starts_with_mono:
  "i \<le> k \<Longrightarrow> starts_with (all_groups (state_at pages i)) c p
     \<Longrightarrow> starts_with (all_groups (state_at pages k)) c p"
proof (induction k)
  case 0
  then show ?case by simp
next
  case (Suc k)
  show ?case
  proof (cases "i = Suc k")
    case True
    with Suc.prems show ?thesis by simp
  next
    case False
    with Suc.prems have "starts_with (all_groups (state_at pages k)) c p"
      using Suc.IH by simp
    with ginv_state_at show ?thesis
      unfolding state_at_Suc by (rule starts_with_step)
  qed
qed

lemma starts_with_merge_into: "starts_with ms c p \<Longrightarrow> starts_with (merge_into ms g) c p"
  by (cases ms) (auto simp: starts_with_def split: list.splits)

lemma starts_with_foldl: "starts_with acc c p \<Longrightarrow> starts_with (foldl merge_into acc gs) c p"
  by (induction gs arbitrary: acc) (simp_all add: starts_with_merge_into)

lemma starts_with_merged: "starts_with gs c p \<Longrightarrow> starts_with (foldl merge_into [] gs) c p"
proof (cases gs)
  case Nil
  assume "starts_with gs c p"
  with Nil show ?thesis by (simp add: starts_with_def)
next
  case (Cons g gs')
  assume "starts_with gs c p"
  with Cons have "starts_with [g] c p" by (simp add: starts_with_def)
  then have "starts_with (foldl merge_into [g] gs') c p" by (rule starts_with_foldl)
  with Cons show ?thesis by simp
qed

lemma pages_step:
  "snd ` filed_pages (all_groups (group_step pages st i))
     \<subseteq> insert (pages ! i) (snd ` filed_pages (all_groups st))"
proof (cases "currentGroup st")
  case None
  then show ?thesis
    using orphan_cases [of pages i st]
    by (auto simp: group_step_def Let_def all_groups_def filed_pages_append filed_pages_Cons
        filed_pages_Nil)
next
  case (Some g)
  then show ?thesis
    using orphan_cases [of pages i st]
    by (auto simp: group_step_def Let_def all_groups_def filed_pages_append filed_pages_Cons
        filed_pages_Nil)
qed

lemma pages_after:
  assumes "all_groups (state_at pages (Suc i)) = []"
  shows "Suc i \<le> k \<Longrightarrow> snd ` filed_pages (all_groups (state_at pages k)) \<subseteq> {pages ! j | j. i < j \<and> j < k}"
proof (induction k)
  case 0
  then show ?case by simp
next
  case (Suc k)
  show ?case
  proof (cases "i = k")
    case True
    with assms show ?thesis by (simp add: filed_pages_Nil)
  next
    case False
    with Suc.prems have le: "Suc i \<le> k" by simp
    then have IH: "snd ` filed_pages (all_groups (state_at pages k)) \<subseteq> {pages ! j | j. i < j \<and> j < k}"
      by (rule Suc.IH)
    have "snd ` filed_pages (all_groups (state_at pages (Suc k)))
        \<subseteq> insert (pages ! k) (snd ` filed_pages (all_groups (state_at pages k)))"
      unfolding state_at_Suc by (rule pages_step)
    also have "\<dots> \<subseteq> insert (pages ! k) {pages ! j | j. i < j \<and> j < k}"
      using IH by blast
    also have "\<dots> \<subseteq> {pages ! j | j. i < j \<and> j < Suc k}"
      using le by (auto simp: less_Suc_eq)
    finally show ?thesis .
  qed
qed

lemma drop_Cons_nth:
  assumes "drop n xs = y # ys"
  shows "n < length xs \<and> xs ! n = y \<and> drop (Suc n) xs = ys"
proof -
  have n: "n < length xs"
  proof (rule ccontr)
    assume "\<not> n < length xs"
    then have "drop n xs = []" by simp
    with assms show False by simp
  qed
  then have "xs ! n # drop (Suc n) xs = drop n xs" by (rule Cons_nth_drop_Suc)
  with assms n show ?thesis by simp
qed

lemma lookahead_first:
  assumes "lookahead pages i = Some f"
  shows "(i + 1 < length pages \<and> cr (pages ! (i + 1)) = Some f)
     \<or> (i + 2 < length pages \<and> \<not> truthy (cr (pages ! (i + 1))) \<and> cr (pages ! (i + 2)) = Some f)"
proof (cases "drop (Suc i) pages")
  case Nil
  with assms show ?thesis by (simp add: lookahead_def)
next
  case (Cons x xs)
  from drop_Cons_nth [OF Cons]
  have i1: "Suc i < length pages" and x: "pages ! Suc i = x" and rest: "drop (Suc (Suc i)) pages = xs"
    by simp_all
  show ?thesis
  proof (cases "truthy (cr x)")
    case True
    with assms Cons x i1 show ?thesis by (simp add: lookahead_def)
  next
    case False
    show ?thesis
    proof (cases xs)
      case Nil
      with assms \<open>drop (Suc i) pages = x # xs\<close> False show ?thesis by (simp add: lookahead_def)
    next
      case (Cons y ys)
      with rest have "drop (Suc (Suc i)) pages = y # ys" by simp
      from drop_Cons_nth [OF this]
      have i2: "Suc (Suc i) < length pages" and y: "pages ! Suc (Suc i) = y" by simp_all
      from assms \<open>drop (Suc i) pages = x # xs\<close> Cons False have "cr y = Some f"
        by (auto simp: lookahead_def split: if_splits)
      with False x y i2 show ?thesis by simp
    qed
  qed
qed

lemma starts_with_explicit:
  "starts_with gs c p \<Longrightarrow> \<exists>G Gs ps. gs = G # Gs \<and> g_cr G = c \<and> g_pages G = p # ps"
  by (auto simp: starts_with_def split: list.splits)

lemma take2_drop:
  "take 2 (drop (Suc i) pages)
     = (if Suc (Suc i) < length pages then [pages ! Suc i, pages ! Suc (Suc i)]
        else if Suc i < length pages then [pages ! Suc i] else [])"
proof (cases "Suc i < length pages")
  case False
  then show ?thesis by simp
next
  case True
  then have d1: "drop (Suc i) pages = pages ! Suc i # drop (Suc (Suc i)) pages"
    by (simp add: Cons_nth_drop_Suc)
  show ?thesis
  proof (cases "Suc (Suc i) < length pages")
    case False
    with True d1 show ?thesis by (simp add: numeral_2_eq_2)
  next
    case s: True
    then have "drop (Suc (Suc i)) pages = pages ! Suc (Suc i) # drop (Suc (Suc (Suc i))) pages"
      by (simp add: Cons_nth_drop_Suc)
    with s d1 show ?thesis by (simp add: numeral_2_eq_2)
  qed
qed

text \<open>The inner loop, index by index.\<close>

lemma lookahead_explicit:
  "lookahead pages i
     = (if Suc i < length pages \<and> truthy (cr (pages ! Suc i)) then cr (pages ! Suc i)
        else if Suc (Suc i) < length pages \<and> truthy (cr (pages ! Suc (Suc i)))
             then cr (pages ! Suc (Suc i))
        else None)"
  by (simp add: lookahead_def take2_drop)

lemma lookahead_found:
  assumes "(i + 1 < length pages \<and> truthy (cr (pages ! (i + 1))) \<and> cr (pages ! (i + 1)) = Some f)
     \<or> (i + 2 < length pages \<and> \<not> truthy (cr (pages ! (i + 1))) \<and> truthy (cr (pages ! (i + 2)))
          \<and> cr (pages ! (i + 2)) = Some f)"
  shows "lookahead pages i = Some f"
  using assms by (auto simp: lookahead_explicit)

lemma lookahead_none:
  assumes "\<forall>j. i < j \<longrightarrow> j \<le> i + 2 \<longrightarrow> j < length pages \<longrightarrow> \<not> truthy (cr (pages ! j))"
  shows "lookahead pages i = None"
proof -
  have "Suc i < length pages \<longrightarrow> \<not> truthy (cr (pages ! Suc i))"
    using assms by simp
  moreover have "Suc (Suc i) < length pages \<longrightarrow> \<not> truthy (cr (pages ! Suc (Suc i)))"
    using assms by simp
  ultimately show ?thesis by (auto simp: lookahead_explicit)
qed

lemma lookahead_none_conv:
  assumes "lookahead pages i = None"
  shows "\<forall>j. i < j \<longrightarrow> j \<le> i + 2 \<longrightarrow> j < length pages \<longrightarrow> \<not> truthy (cr (pages ! j))"
proof (intro allI impI)
  fix j assume "i < j" "j \<le> i + 2" "j < length pages"
  then consider "j = Suc i" "Suc i < length pages" | "j = Suc (Suc i)" "Suc (Suc i) < length pages"
    by force
  then show "\<not> truthy (cr (pages ! j))"
  proof cases
    case 1
    with assms show ?thesis by (auto simp: lookahead_explicit truthy_def split: if_splits)
  next
    case 2
    with assms show ?thesis by (auto simp: lookahead_explicit truthy_def split: if_splits)
  qed
qed

text \<open>Once a group is open, one stays open.\<close>

lemma step_open_stays:
  "currentGroup st \<noteq> None \<Longrightarrow> currentGroup (group_step pages st i) \<noteq> None"
  using orphan_cases [of pages i st]
  by (auto simp: group_step_def Let_def split: option.splits)

lemma step_none_iff:
  assumes "currentGroup st = None"
  shows "currentGroup (group_step pages st i) = None
     \<longleftrightarrow> \<not> truthy (cr (pages ! i)) \<and> lookahead pages i = None"
  using assms orphan_cases [of pages i st]
  by (auto simp: group_step_def Let_def)

text \<open>
  No group is open on arrival at index \<open>i\<close> exactly when \<open>i\<close> is the first index or none
  of the pages up to index \<open>i + 1\<close> carries an identifier.
\<close>

lemma no_open_group_iff:
  "i \<le> length pages \<Longrightarrow>
   currentGroup (state_at pages i) = None
     \<longleftrightarrow> i = 0 \<or> (\<forall>k. k < i + 2 \<longrightarrow> k < length pages \<longrightarrow> \<not> truthy (cr (pages ! k)))"
proof (induction i)
  case 0
  show ?case by (simp add: state_at_0)
next
  case (Suc i)
  then have i: "i < length pages" and
    IH: "currentGroup (state_at pages i) = None
     \<longleftrightarrow> i = 0 \<or> (\<forall>k. k < i + 2 \<longrightarrow> k < length pages \<longrightarrow> \<not> truthy (cr (pages ! k)))"
    by simp_all
  let ?none = "\<lambda>n. \<forall>k. k < n \<longrightarrow> k < length pages \<longrightarrow> \<not> truthy (cr (pages ! k))"
  show ?case
  proof (cases "currentGroup (state_at pages i) = None")
    case False
    then have "currentGroup (state_at pages (Suc i)) \<noteq> None"
      unfolding state_at_Suc by (rule step_open_stays)
    moreover from False IH have "\<not> ?none (i + 2)" by simp
    then obtain k where "k < i + 2" "k < length pages" "truthy (cr (pages ! k))" by auto
    then have "\<not> ?none (Suc i + 2)"
      by (auto intro: exI [of _ k])
    ultimately show ?thesis by auto
  next
    case True
    then have st: "currentGroup (state_at pages (Suc i)) = None
        \<longleftrightarrow> \<not> truthy (cr (pages ! i)) \<and> lookahead pages i = None"
      unfolding state_at_Suc by (rule step_none_iff)
    have look: "lookahead pages i = None
        \<longleftrightarrow> (\<forall>j. i < j \<longrightarrow> j \<le> i + 2 \<longrightarrow> j < length pages \<longrightarrow> \<not> truthy (cr (pages ! j)))"
      using lookahead_none lookahead_none_conv by blast
    from True IH have before: "i = 0 \<or> ?none (i + 2)" by simp
    show ?thesis
    proof
      assume "currentGroup (state_at pages (Suc i)) = None"
      with st look have here: "\<not> truthy (cr (pages ! i))"
        and ahead: "\<forall>j. i < j \<longrightarrow> j \<le> i + 2 \<longrightarrow> j < length pages \<longrightarrow> \<not> truthy (cr (pages ! j))"
        by blast+
      have "?none (Suc i + 2)"
      proof (intro allI impI)
        fix k assume k: "k < Suc i + 2" "k < length pages"
        show "\<not> truthy (cr (pages ! k))"
        proof (cases "k < i")
          case True
          with before k show ?thesis by auto
        next
          case False
          then consider "k = i" | "i < k" by force
          then show ?thesis
          proof cases
            case 1
            with here show ?thesis by simp
          next
            case 2
            with ahead k show ?thesis by simp
          qed
        qed
      qed
      then show "Suc i = 0 \<or> ?none (Suc i + 2)" by simp
    next
      assume "Suc i = 0 \<or> ?none (Suc i + 2)"
      then have n: "?none (Suc i + 2)" by simp
      have "\<not> truthy (cr (pages ! i))"
        using n i by simp
      moreover have "\<forall>j. i < j \<longrightarrow> j \<le> i + 2 \<longrightarrow> j < length pages \<longrightarrow> \<not> truthy (cr (pages ! j))"
        using n by simp
      ultimately show "currentGroup (state_at pages (Suc i)) = None"
        using st look by blast
    qed
  qed
qed

text \<open>Three pages of which only the first carries an identifier.\<close>

lemma three_pages_one_group:
  assumes "truthy (cr p1)" "\<not> truthy (cr p2)" "\<not> truthy (cr p3)"
  shows "groupPagesByCR [p1, p2, p3]
     = [\<lparr> g_cr = cr p1, g_crType = crType p1, g_pages = [p1, p2, p3] \<rparr>]"
  using assms
  by (simp add: groupPagesByCR_def state_at_def closed_groups_def group_step_def Let_def upt_rec)

lemma orphan_page_cases:
  assumes "i < length pages" and "\<not> truthy (cr (pages ! i))"
  shows "(\<forall>g. currentGroup (state_at pages i) = Some g \<longrightarrow>
            state_at pages (Suc i)
              = (state_at pages i)\<lparr> currentGroup := Some (g\<lparr> g_pages := g_pages g @ [pages ! i] \<rparr>) \<rparr>
            \<and> (\<exists>G \<in> set (groupPagesByCR pages). g_cr G = g_cr g \<and> pages ! i \<in> set (g_pages G)))
     \<and> (\<forall>f. currentGroup (state_at pages i) = None \<longrightarrow> lookahead pages i = Some f \<longrightarrow>
            state_at pages (Suc i)
              = \<lparr> groups = [], currentGroup = Some \<lparr> g_cr = Some f, g_crType = Some (getCRType f),
                                                   g_pages = [pages ! i] \<rparr> \<rparr>
            \<and> (\<exists>G Gs ps. groupPagesByCR pages = G # Gs \<and> g_cr G = Some f \<and> g_pages G = pages ! i # ps)
            \<and> ((i + 1 < length pages \<and> cr (pages ! (i + 1)) = Some f)
               \<or> (i + 2 < length pages \<and> \<not> truthy (cr (pages ! (i + 1)))
                    \<and> cr (pages ! (i + 2)) = Some f)))
     \<and> (currentGroup (state_at pages i) = None \<longrightarrow> lookahead pages i = None \<longrightarrow>
            state_at pages (Suc i) = state_at pages i
            \<and> (distinct pages \<longrightarrow> (\<forall>G \<in> set (groupPagesByCR pages). pages ! i \<notin> set (g_pages G))))
     \<and> groupPagesByCR three_pages
         = [\<lparr> g_cr = Some (js ''577770''), g_crType = Some H01, g_pages = three_pages \<rparr>]"
proof -
  let ?st = "state_at pages i"
  let ?p = "pages ! i"
  have inv: "ginv ?st" by (rule ginv_state_at)
  have le: "Suc i \<le> length pages" using assms(1) by simp
  have a: "\<forall>g. currentGroup ?st = Some g \<longrightarrow>
            state_at pages (Suc i) = ?st\<lparr> currentGroup := Some (g\<lparr> g_pages := g_pages g @ [?p] \<rparr>) \<rparr>
            \<and> (\<exists>G \<in> set (groupPagesByCR pages). g_cr G = g_cr g \<and> ?p \<in> set (g_pages G))"
  proof (intro allI impI)
    fix g assume cur: "currentGroup ?st = Some g"
    have eq: "state_at pages (Suc i) = ?st\<lparr> currentGroup := Some (g\<lparr> g_pages := g_pages g @ [?p] \<rparr>) \<rparr>"
      unfolding state_at_Suc using assms(2) cur inv by (rule step_appends)
    have "(g_cr g, ?p) \<in> filed_pages (all_groups (state_at pages (Suc i)))"
      by (simp add: eq all_groups_def filed_pages_append filed_pages_Cons)
    then have "(g_cr g, ?p) \<in> filed_pages (groupPagesByCR pages)"
      using filed_pages_mono [OF le] by (auto simp: filed_pages_result)
    then have "\<exists>G \<in> set (groupPagesByCR pages). g_cr G = g_cr g \<and> ?p \<in> set (g_pages G)"
      by (auto simp: filed_pages_def)
    with eq show "state_at pages (Suc i) = ?st\<lparr> currentGroup := Some (g\<lparr> g_pages := g_pages g @ [?p] \<rparr>) \<rparr>
            \<and> (\<exists>G \<in> set (groupPagesByCR pages). g_cr G = g_cr g \<and> ?p \<in> set (g_pages G))"
      by simp
  qed
  have b: "\<forall>f. currentGroup ?st = None \<longrightarrow> lookahead pages i = Some f \<longrightarrow>
            state_at pages (Suc i)
              = \<lparr> groups = [], currentGroup = Some \<lparr> g_cr = Some f, g_crType = Some (getCRType f),
                                                   g_pages = [?p] \<rparr> \<rparr>
            \<and> (\<exists>G Gs ps. groupPagesByCR pages = G # Gs \<and> g_cr G = Some f \<and> g_pages G = ?p # ps)
            \<and> ((i + 1 < length pages \<and> cr (pages ! (i + 1)) = Some f)
               \<or> (i + 2 < length pages \<and> \<not> truthy (cr (pages ! (i + 1)))
                    \<and> cr (pages ! (i + 2)) = Some f))"
  proof (intro allI impI)
    fix f assume cur: "currentGroup ?st = None" and look: "lookahead pages i = Some f"
    have g0: "groups ?st = []" using inv cur by (simp add: ginv_def)
    have "state_at pages (Suc i) = orphan pages ?st i"
      unfolding state_at_Suc using assms(2) cur by (rule step_orphan)
    also have "\<dots> = ?st\<lparr> currentGroup := Some \<lparr> g_cr = Some f, g_crType = Some (getCRType f),
                                                g_pages = [?p] \<rparr> \<rparr>"
      using orphan_cases [of pages i ?st] look by auto
    also have "\<dots> = \<lparr> groups = [], currentGroup = Some \<lparr> g_cr = Some f,
                          g_crType = Some (getCRType f), g_pages = [?p] \<rparr> \<rparr>"
      using g0 by simp
    finally have eq: "state_at pages (Suc i)
        = \<lparr> groups = [], currentGroup = Some \<lparr> g_cr = Some f, g_crType = Some (getCRType f),
                                             g_pages = [?p] \<rparr> \<rparr>" .
    have "starts_with (all_groups (state_at pages (Suc i))) (Some f) ?p"
      by (simp add: eq all_groups_def starts_with_def)
    with le have "starts_with (all_groups (state_at pages (length pages))) (Some f) ?p"
      by (rule starts_with_mono)
    then have "starts_with (groupPagesByCR pages) (Some f) ?p"
      unfolding groupPagesByCR_def
      by (simp add: closed_groups_all ginv_state_at starts_with_merged)
    then have ex: "\<exists>G Gs ps. groupPagesByCR pages = G # Gs \<and> g_cr G = Some f \<and> g_pages G = ?p # ps"
      by (rule starts_with_explicit)
    from eq ex lookahead_first [OF look]
    show "state_at pages (Suc i)
              = \<lparr> groups = [], currentGroup = Some \<lparr> g_cr = Some f, g_crType = Some (getCRType f),
                                                   g_pages = [?p] \<rparr> \<rparr>
            \<and> (\<exists>G Gs ps. groupPagesByCR pages = G # Gs \<and> g_cr G = Some f \<and> g_pages G = ?p # ps)
            \<and> ((i + 1 < length pages \<and> cr (pages ! (i + 1)) = Some f)
               \<or> (i + 2 < length pages \<and> \<not> truthy (cr (pages ! (i + 1)))
                    \<and> cr (pages ! (i + 2)) = Some f))"
      by blast
  qed
  have c: "currentGroup ?st = None \<longrightarrow> lookahead pages i = None \<longrightarrow>
            state_at pages (Suc i) = ?st
            \<and> (distinct pages \<longrightarrow> (\<forall>G \<in> set (groupPagesByCR pages). ?p \<notin> set (g_pages G)))"
  proof (intro impI)
    assume cur: "currentGroup ?st = None" and look: "lookahead pages i = None"
    have g0: "groups ?st = []" using inv cur by (simp add: ginv_def)
    have "state_at pages (Suc i) = orphan pages ?st i"
      unfolding state_at_Suc using assms(2) cur by (rule step_orphan)
    also have "\<dots> = ?st"
      using orphan_cases [of pages i ?st] look by auto
    finally have eq: "state_at pages (Suc i) = ?st" .
    have empty: "all_groups (state_at pages (Suc i)) = []"
      by (simp add: eq all_groups_def cur g0)
    have sub: "snd ` filed_pages (groupPagesByCR pages) \<subseteq> {pages ! j | j. i < j \<and> j < length pages}"
      using pages_after [OF empty le] by (simp add: filed_pages_result)
    have "distinct pages \<longrightarrow> (\<forall>G \<in> set (groupPagesByCR pages). ?p \<notin> set (g_pages G))"
    proof (intro impI ballI notI)
      fix G assume d: "distinct pages" and G: "G \<in> set (groupPagesByCR pages)" and m: "?p \<in> set (g_pages G)"
      have "(g_cr G, ?p) \<in> filed_pages (groupPagesByCR pages)"
        using G m by (auto simp: filed_pages_def)
      then have "?p \<in> snd ` filed_pages (groupPagesByCR pages)"
        by force
      with sub obtain j where j: "i < j" "j < length pages" "?p = pages ! j" by blast
      with d assms(1) have "i = j" by (simp add: nth_eq_iff_index_eq)
      with j(1) show False by simp
    qed
    with eq show "state_at pages (Suc i) = ?st
            \<and> (distinct pages \<longrightarrow> (\<forall>G \<in> set (groupPagesByCR pages). ?p \<notin> set (g_pages G)))"
      by simp
  qed
  have d: "groupPagesByCR three_pages
         = [\<lparr> g_cr = Some (js ''577770''), g_crType = Some H01, g_pages = three_pages \<rparr>]"
    by (simp add: three_pages_def grp_defs upt_rec)
  from a b c d show ?thesis by blast
qed

text \<open>
  Claim C6. Let the page at index \<open>i\<close> carry no identifier. A group is open on arrival
  unless \<open>i\<close> is the first index or no page up to index \<open>i + 1\<close> carries an identifier.
  If a group is open, the page is appended to it, and in the result it is a page of a
  group with that group's identifier. If no group is open and one of the next two pages
  carries an identifier, the inner loop finds the first such identifier, a new group is
  opened with it and with this page as its only page, and in the result the page is the
  first page of the first group, which has that identifier. If no group is open and
  neither of the next two pages carries an identifier, the state is left as it is and the
  page is in no group of the result (the pages being pairwise different). Any three pages
  of which only the first carries an identifier give the one group of all three under that
  identifier, as do the three pages with \<open>577770\<close> on the first.
\<close>

theorem orphan_page_grouping:
  assumes "i < length pages" and "\<not> truthy (cr (pages ! i))"
  shows "(currentGroup (state_at pages i) = None
            \<longleftrightarrow> i = 0 \<or> (\<forall>k. k < i + 2 \<longrightarrow> k < length pages \<longrightarrow> \<not> truthy (cr (pages ! k))))
     \<and> (\<forall>g. currentGroup (state_at pages i) = Some g \<longrightarrow>
            state_at pages (Suc i)
              = (state_at pages i)\<lparr> currentGroup := Some (g\<lparr> g_pages := g_pages g @ [pages ! i] \<rparr>) \<rparr>
            \<and> (\<exists>G \<in> set (groupPagesByCR pages). g_cr G = g_cr g \<and> pages ! i \<in> set (g_pages G)))
     \<and> (\<forall>f. currentGroup (state_at pages i) = None \<longrightarrow>
            ((i + 1 < length pages \<and> truthy (cr (pages ! (i + 1))) \<and> cr (pages ! (i + 1)) = Some f)
             \<or> (i + 2 < length pages \<and> \<not> truthy (cr (pages ! (i + 1)))
                  \<and> truthy (cr (pages ! (i + 2))) \<and> cr (pages ! (i + 2)) = Some f)) \<longrightarrow>
            lookahead pages i = Some f
            \<and> state_at pages (Suc i)
              = \<lparr> groups = [], currentGroup = Some \<lparr> g_cr = Some f, g_crType = Some (getCRType f),
                                                   g_pages = [pages ! i] \<rparr> \<rparr>
            \<and> (\<exists>G Gs ps. groupPagesByCR pages = G # Gs \<and> g_cr G = Some f \<and> g_pages G = pages ! i # ps))
     \<and> (currentGroup (state_at pages i) = None \<longrightarrow>
            (\<forall>j. i < j \<longrightarrow> j \<le> i + 2 \<longrightarrow> j < length pages \<longrightarrow> \<not> truthy (cr (pages ! j))) \<longrightarrow>
            lookahead pages i = None
            \<and> state_at pages (Suc i) = state_at pages i
            \<and> (distinct pages \<longrightarrow> (\<forall>G \<in> set (groupPagesByCR pages). pages ! i \<notin> set (g_pages G))))
     \<and> (\<forall>p1 p2 p3. truthy (cr p1) \<longrightarrow> \<not> truthy (cr p2) \<longrightarrow> \<not> truthy (cr p3) \<longrightarrow>
            groupPagesByCR [p1, p2, p3]
              = [\<lparr> g_cr = cr p1, g_crType = crType p1, g_pages = [p1, p2, p3] \<rparr>])
     \<and> groupPagesByCR three_pages
         = [\<lparr> g_cr = Some (js ''577770''), g_crType = Some H01, g_pages = three_pages \<rparr>]"
proof -
  note cases = orphan_page_cases [OF assms]
  have le: "i \<le> length pages" using assms(1) by simp
  have a: "currentGroup (state_at pages i) = None
            \<longleftrightarrow> i = 0 \<or> (\<forall>k. k < i + 2 \<longrightarrow> k < length pages \<longrightarrow> \<not> truthy (cr (pages ! k)))"
    using le by (rule no_open_group_iff)
  have b: "\<forall>g. currentGroup (state_at pages i) = Some g \<longrightarrow>
            state_at pages (Suc i)
              = (state_at pages i)\<lparr> currentGroup := Some (g\<lparr> g_pages := g_pages g @ [pages ! i] \<rparr>) \<rparr>
            \<and> (\<exists>G \<in> set (groupPagesByCR pages). g_cr G = g_cr g \<and> pages ! i \<in> set (g_pages G))"
    using cases by blast
  have c: "\<forall>f. currentGroup (state_at pages i) = None \<longrightarrow>
            ((i + 1 < length pages \<and> truthy (cr (pages ! (i + 1))) \<and> cr (pages ! (i + 1)) = Some f)
             \<or> (i + 2 < length pages \<and> \<not> truthy (cr (pages ! (i + 1)))
                  \<and> truthy (cr (pages ! (i + 2))) \<and> cr (pages ! (i + 2)) = Some f)) \<longrightarrow>
            lookahead pages i = Some f
            \<and> state_at pages (Suc i)
              = \<lparr> groups = [], currentGroup = Some \<lparr> g_cr = Some f, g_crType = Some (getCRType f),
                                                   g_pages = [pages ! i] \<rparr> \<rparr>
            \<and> (\<exists>G Gs ps. groupPagesByCR pages = G # Gs \<and> g_cr G = Some f \<and> g_pages G = pages ! i # ps)"
  proof (intro allI impI)
    fix f
    assume cur: "currentGroup (state_at pages i) = None"
      and there: "(i + 1 < length pages \<and> truthy (cr (pages ! (i + 1))) \<and> cr (pages ! (i + 1)) = Some f)
             \<or> (i + 2 < length pages \<and> \<not> truthy (cr (pages ! (i + 1)))
                  \<and> truthy (cr (pages ! (i + 2))) \<and> cr (pages ! (i + 2)) = Some f)"
    from there have look: "lookahead pages i = Some f" by (rule lookahead_found)
    with cur cases show "lookahead pages i = Some f
            \<and> state_at pages (Suc i)
              = \<lparr> groups = [], currentGroup = Some \<lparr> g_cr = Some f, g_crType = Some (getCRType f),
                                                   g_pages = [pages ! i] \<rparr> \<rparr>
            \<and> (\<exists>G Gs ps. groupPagesByCR pages = G # Gs \<and> g_cr G = Some f \<and> g_pages G = pages ! i # ps)"
      by blast
  qed
  have d: "currentGroup (state_at pages i) = None \<longrightarrow>
            (\<forall>j. i < j \<longrightarrow> j \<le> i + 2 \<longrightarrow> j < length pages \<longrightarrow> \<not> truthy (cr (pages ! j))) \<longrightarrow>
            lookahead pages i = None
            \<and> state_at pages (Suc i) = state_at pages i
            \<and> (distinct pages \<longrightarrow> (\<forall>G \<in> set (groupPagesByCR pages). pages ! i \<notin> set (g_pages G)))"
  proof (intro impI)
    assume cur: "currentGroup (state_at pages i) = None"
      and none: "\<forall>j. i < j \<longrightarrow> j \<le> i + 2 \<longrightarrow> j < length pages \<longrightarrow> \<not> truthy (cr (pages ! j))"
    from none have look: "lookahead pages i = None" by (rule lookahead_none)
    with cur cases show "lookahead pages i = None
            \<and> state_at pages (Suc i) = state_at pages i
            \<and> (distinct pages \<longrightarrow> (\<forall>G \<in> set (groupPagesByCR pages). pages ! i \<notin> set (g_pages G)))"
      by blast
  qed
  have e: "\<forall>p1 p2 p3. truthy (cr p1) \<longrightarrow> \<not> truthy (cr p2) \<longrightarrow> \<not> truthy (cr p3) \<longrightarrow>
            groupPagesByCR [p1, p2, p3]
              = [\<lparr> g_cr = cr p1, g_crType = crType p1, g_pages = [p1, p2, p3] \<rparr>]"
    using three_pages_one_group by blast
  have f: "groupPagesByCR three_pages
         = [\<lparr> g_cr = Some (js ''577770''), g_crType = Some H01, g_pages = three_pages \<rparr>]"
    using cases by blast
  from a b c d e f show ?thesis by blast
qed

theorem orphan_page_grouping_witness:
  "5 < length orphan_pages \<and> \<not> truthy (cr (orphan_pages ! 5))
   \<and> truthy (cr (orphan_pages ! 4))
   \<and> (\<exists>g. currentGroup (state_at orphan_pages 5) = Some g \<and> g_cr g = Some (js ''12345678''))
   \<and> (\<exists>G \<in> set (groupPagesByCR orphan_pages).
         g_cr G = Some (js ''12345678'') \<and> orphan_pages ! 5 \<in> set (g_pages G))
   \<and> \<not> truthy (cr (orphan_pages ! 0)) \<and> \<not> truthy (cr (orphan_pages ! 1))
   \<and> \<not> truthy (cr (orphan_pages ! 2)) \<and> \<not> truthy (cr (orphan_pages ! 3))
   \<and> cr (orphan_pages ! 4) = Some (js ''12345678'')
   \<and> currentGroup (state_at orphan_pages 2) = None
   \<and> lookahead orphan_pages 2 = Some (js ''12345678'')
   \<and> (\<exists>G Gs ps. groupPagesByCR orphan_pages = G # Gs \<and> g_cr G = Some (js ''12345678'')
         \<and> g_pages G = orphan_pages ! 2 # ps)
   \<and> currentGroup (state_at orphan_pages 0) = None \<and> lookahead orphan_pages 0 = None
   \<and> distinct orphan_pages
   \<and> list_all (\<lambda>G. orphan_pages ! 0 \<notin> set (g_pages G)) (groupPagesByCR orphan_pages)"
proof -
  have l5: "5 < length orphan_pages" and l2: "2 < length orphan_pages" and l0: "0 < length orphan_pages"
    and l4: "2 + 2 < length orphan_pages"
    by (simp_all add: orphan_pages_def)
  have n: "\<not> truthy (cr (orphan_pages ! 0))" "\<not> truthy (cr (orphan_pages ! 1))"
    "\<not> truthy (cr (orphan_pages ! 2))" "\<not> truthy (cr (orphan_pages ! 3))"
    "\<not> truthy (cr (orphan_pages ! 5))"
    by (simp_all add: orphan_pages_def mk_page_def truthy_def)
  have t4: "truthy (cr (orphan_pages ! 4))" and c4: "cr (orphan_pages ! 4) = Some (js ''12345678'')"
    by (simp_all add: orphan_pages_def mk_page_def truthy_def js_def)
  note th5 = orphan_page_grouping [OF l5 n(5)]
  note th2 = orphan_page_grouping [OF l2 n(3)]
  note th0 = orphan_page_grouping [OF l0 n(1)]
  have open5: "currentGroup (state_at orphan_pages 5) \<noteq> None"
  proof -
    have "4 < (5::nat) + 2" "4 < length orphan_pages" by (simp_all add: orphan_pages_def)
    with t4 th5 show ?thesis by force
  qed
  then obtain g where g: "currentGroup (state_at orphan_pages 5) = Some g" by auto
  have gcr: "g_cr g = Some (js ''12345678'')"
    using g by (auto simp: orphan_pages_def grp_defs upt_rec)
  from g gcr have c5: "\<exists>g. currentGroup (state_at orphan_pages 5) = Some g \<and> g_cr g = Some (js ''12345678'')"
    by blast
  from g gcr th5
  have r5: "\<exists>G \<in> set (groupPagesByCR orphan_pages).
         g_cr G = Some (js ''12345678'') \<and> orphan_pages ! 5 \<in> set (g_pages G)"
    by force
  have none2: "\<forall>k. k < (2::nat) + 2 \<longrightarrow> k < length orphan_pages \<longrightarrow> \<not> truthy (cr (orphan_pages ! k))"
  proof (intro allI impI)
    fix k :: nat assume "k < 2 + 2"
    then consider "k = 0" | "k = 1" | "k = 2" | "k = 3" by force
    then show "\<not> truthy (cr (orphan_pages ! k))" using n by cases simp_all
  qed
  with th2 have c2: "currentGroup (state_at orphan_pages 2) = None" by blast
  have there: "(2 + 1 < length orphan_pages \<and> truthy (cr (orphan_pages ! (2 + 1)))
          \<and> cr (orphan_pages ! (2 + 1)) = Some (js ''12345678''))
       \<or> (2 + 2 < length orphan_pages \<and> \<not> truthy (cr (orphan_pages ! (2 + 1)))
          \<and> truthy (cr (orphan_pages ! (2 + 2))) \<and> cr (orphan_pages ! (2 + 2)) = Some (js ''12345678''))"
    using l4 n(4) t4 c4 by simp
  from c2 there th2
  have r2: "lookahead orphan_pages 2 = Some (js ''12345678'')
     \<and> (\<exists>G Gs ps. groupPagesByCR orphan_pages = G # Gs \<and> g_cr G = Some (js ''12345678'')
         \<and> g_pages G = orphan_pages ! 2 # ps)"
    by blast
  from th0 have c0: "currentGroup (state_at orphan_pages 0) = None" by blast
  have none0: "\<forall>j. 0 < j \<longrightarrow> j \<le> 0 + 2 \<longrightarrow> j < length orphan_pages \<longrightarrow> \<not> truthy (cr (orphan_pages ! j))"
  proof (intro allI impI)
    fix j :: nat assume "0 < j" "j \<le> 0 + 2"
    then consider "j = 1" | "j = 2" by force
    then show "\<not> truthy (cr (orphan_pages ! j))" using n by cases simp_all
  qed
  have d: "distinct orphan_pages"
    by (simp add: orphan_pages_def mk_page_def)
  from c0 none0 d th0
  have r0: "lookahead orphan_pages 0 = None
     \<and> list_all (\<lambda>G. orphan_pages ! 0 \<notin> set (g_pages G)) (groupPagesByCR orphan_pages)"
    unfolding list_all_iff by blast
  from l5 n t4 c4 c5 r5 c2 r2 c0 r0 d show ?thesis by blast
qed

section \<open>Properties of the verdict\<close>

text \<open>
  Claim C7. The overall status is the decision table applied to the stamp status, the
  signature status and the presence of a date that the function has computed: both
  present gives \<open>COMPLETE\<close> with a date and \<open>DATE_MISSING\<close> without, both missing gives
  \<open>BOTH_MISSING\<close>, one missing and the other present gives \<open>STAMP_MISSING\<close> or
  \<open>SIGNATURE_MISSING\<close>, and an uncertain status gives \<open>NEEDS_REVIEW\<close>.
\<close>

theorem overall_status_table:
  "(v_stamp (analyzeStampAndSignature cfg m) = PRESENT \<and> v_signature (analyzeStampAndSignature cfg m) = PRESENT
      \<and> v_date (analyzeStampAndSignature cfg m) = PRESENT
      \<longrightarrow> v_overallStatus (analyzeStampAndSignature cfg m) = COMPLETE)
   \<and> (v_stamp (analyzeStampAndSignature cfg m) = PRESENT \<and> v_signature (analyzeStampAndSignature cfg m) = PRESENT
      \<and> v_date (analyzeStampAndSignature cfg m) = MISSING
      \<longrightarrow> v_overallStatus (analyzeStampAndSignature cfg m) = DATE_MISSING)
   \<and> (v_stamp (analyzeStampAndSignature cfg m) = MISSING \<and> v_signature (analyzeStampAndSignature cfg m) = MISSING
      \<longrightarrow> v_overallStatus (analyzeStampAndSignature cfg m) = BOTH_MISSING)
   \<and> (v_stamp (analyzeStampAndSignature cfg m) = MISSING \<and> v_signature (analyzeStampAndSignature cfg m) = PRESENT
      \<longrightarrow> v_overallStatus (analyzeStampAndSignature cfg m) = STAMP_MISSING)
   \<and> (v_stamp (analyzeStampAndSignature cfg m) = PRESENT \<and> v_signature (analyzeStampAndSignature cfg m) = MISSING
      \<longrightarrow> v_overallStatus (analyzeStampAndSignature cfg m) = SIGNATURE_MISSING)
   \<and> (v_stamp (analyzeStampAndSignature cfg m) = UNCERTAIN \<or> v_signature (analyzeStampAndSignature cfg m) = UNCERTAIN
      \<longrightarrow> v_overallStatus (analyzeStampAndSignature cfg m) = NEEDS_REVIEW)
   \<and> overallStatus PRESENT PRESENT True = COMPLETE
   \<and> overallStatus PRESENT PRESENT False = DATE_MISSING
   \<and> (\<forall>d. overallStatus MISSING MISSING d = BOTH_MISSING)
   \<and> (\<forall>d. overallStatus MISSING PRESENT d = STAMP_MISSING)
   \<and> (\<forall>d. overallStatus PRESENT MISSING d = SIGNATURE_MISSING)
   \<and> (\<forall>s d. overallStatus UNCERTAIN s d = NEEDS_REVIEW)
   \<and> (\<forall>s d. overallStatus s UNCERTAIN d = NEEDS_REVIEW)"
proof -
  have tab: "overallStatus PRESENT PRESENT True = COMPLETE"
    "overallStatus PRESENT PRESENT False = DATE_MISSING"
    "\<And>d. overallStatus MISSING MISSING d = BOTH_MISSING"
    "\<And>d. overallStatus MISSING PRESENT d = STAMP_MISSING"
    "\<And>d. overallStatus PRESENT MISSING d = SIGNATURE_MISSING"
    "\<And>s d. overallStatus UNCERTAIN s d = NEEDS_REVIEW"
    "\<And>s d. overallStatus s UNCERTAIN d = NEEDS_REVIEW"
    by (simp_all add: overallStatus_def)
  have sel: "v_overallStatus (analyzeStampAndSignature cfg m)
        = overallStatus (v_stamp (analyzeStampAndSignature cfg m))
            (v_signature (analyzeStampAndSignature cfg m)) (hasDate m)"
    "v_date (analyzeStampAndSignature cfg m) = PRESENT \<longleftrightarrow> hasDate m"
    "v_date (analyzeStampAndSignature cfg m) = MISSING \<longleftrightarrow> \<not> hasDate m"
    by (simp_all add: analyzeStampAndSignature_def)
  show ?thesis
    unfolding sel using tab by simp
qed

theorem overall_status_table_witness:
  "v_stamp (analyzeStampAndSignature None stamped_undated) = PRESENT
   \<and> v_signature (analyzeStampAndSignature None stamped_undated) = PRESENT
   \<and> v_date (analyzeStampAndSignature None stamped_undated) = MISSING
   \<and> v_overallStatus (analyzeStampAndSignature None stamped_undated) = DATE_MISSING"
proof -
  have h: "v_stamp (analyzeStampAndSignature None stamped_undated) = PRESENT
     \<and> v_signature (analyzeStampAndSignature None stamped_undated) = PRESENT
     \<and> v_date (analyzeStampAndSignature None stamped_undated) = MISSING"
    by (simp add: analyzeStampAndSignature_def stampStatus_def signatureStatus_def
        blueThreshold_def stamped_undated_def)
  with overall_status_table [of None stamped_undated] show ?thesis by blast
qed

section \<open>Properties of the token normalizer\<close>

lemma ascii_upper_fixes_digits: "fixes_digits ascii_upper"
proof -
  have "ascii_upper s = s" if "list_all is_digit s" for s
    using that by (induction s) (auto simp: ascii_upper_def is_digit_def)
  then show ?thesis by (simp add: fixes_digits_def)
qed

lemma subst_digits: "list_all is_digit s \<Longrightarrow> list_all (\<lambda>c. \<not> is_digit c) cls \<Longrightarrow> subst cls r s = s"
  by (induction s) (auto simp: subst_def list_all_iff)

lemma filter_digits: "list_all is_digit s \<Longrightarrow> filter is_digit s = s"
  by (induction s) auto

lemma filter_separator_digits: "list_all is_digit s \<Longrightarrow> filter (\<lambda>c. \<not> is_separator c) s = s"
  by (induction s) (auto simp: is_separator_def is_space_def is_digit_def)

lemma normalizeToken_digits_out: "list_all is_digit (normalizeToken up raw)"
  by (simp add: normalizeToken_def Let_def list_all_iff)

lemma normalizeToken_digits_in:
  assumes "fixes_digits up" "list_all is_digit s"
  shows "normalizeToken up s = s"
proof (cases "s = []")
  case True
  then show ?thesis by (simp add: normalizeToken_def)
next
  case False
  have a: "subst [160] 32 s = s"
    using assms(2) by (rule subst_digits) (simp add: is_digit_def)
  have b: "filter (\<lambda>c. \<not> is_separator c) s = s"
    using assms(2) by (rule filter_separator_digits)
  have c: "up s = s"
    using assms by (simp add: fixes_digits_def)
  have d: "\<And>cls r. list_all (\<lambda>c. \<not> is_digit c) cls \<Longrightarrow> subst cls r s = s"
    using assms(2) by (rule subst_digits)
  have e: "filter is_digit s = s"
    using assms(2) by (rule filter_digits)
  show ?thesis
    using False by (simp add: normalizeToken_def Let_def a b c d e is_digit_def)
qed

text \<open>
  Claim C8. With a \<^verbatim>\<open>toUpperCase\<close> that leaves digit strings unchanged, normalizing twice
  is normalizing once, and a string of digits is returned unchanged.
\<close>

theorem normalizeToken_idempotent:
  assumes "fixes_digits up"
  shows "normalizeToken up (normalizeToken up x) = normalizeToken up x
       \<and> (list_all is_digit x \<longrightarrow> normalizeToken up x = x)"
  using assms normalizeToken_digits_in normalizeToken_digits_out by blast

theorem normalizeToken_idempotent_witness:
  "fixes_digits ascii_upper
   \<and> normalizeToken ascii_upper (js ''s7-7.7 7o'') = js ''577770''
   \<and> normalizeToken ascii_upper (normalizeToken ascii_upper (js ''s7-7.7 7o''))
       = normalizeToken ascii_upper (js ''s7-7.7 7o'')
   \<and> list_all is_digit (js ''577770'')
   \<and> normalizeToken ascii_upper (js ''577770'') = js ''577770''"
proof -
  have r: "js ''s7-7.7 7o'' = [115, 55, 45, 55, 46, 55, 32, 55, 111]"
    by (simp add: js_def)
  have s: "js ''577770'' = [53, 55, 55, 55, 55, 48]"
    by (simp add: js_def)
  have a: "subst [160] 32 [115, 55, 45, 55, 46, 55, 32, 55, 111] = [115, 55, 45, 55, 46, 55, 32, 55, 111]"
    by (simp add: subst_def)
  have b: "filter (\<lambda>c. \<not> is_separator c) [115, 55, 45, 55, 46, 55, 32, 55, 111] = [115, 55, 55, 55, 55, 111]"
    by (simp add: is_separator_def is_space_def)
  have c: "ascii_upper [115, 55, 55, 55, 55, 111] = [83, 55, 55, 55, 55, 79]"
    by (simp add: ascii_upper_def)
  have d: "subst [79, 81] 48 [83, 55, 55, 55, 55, 79] = [83, 55, 55, 55, 55, 48]"
    by (simp add: subst_def)
  have e: "subst [73, 76, 124, 93, 91] 49 [83, 55, 55, 55, 55, 48] = [83, 55, 55, 55, 55, 48]"
    by (simp add: subst_def)
  have f: "subst [83, 115, 36] 53 [83, 55, 55, 55, 55, 48] = [53, 55, 55, 55, 55, 48]"
    by (simp add: subst_def)
  have g: "subst [66] 56 [53, 55, 55, 55, 55, 48] = [53, 55, 55, 55, 55, 48]"
    "subst [71] 57 [53, 55, 55, 55, 55, 48] = [53, 55, 55, 55, 55, 48]"
    "subst [90] 50 [53, 55, 55, 55, 55, 48] = [53, 55, 55, 55, 55, 48]"
    by (simp_all add: subst_def)
  have h: "filter is_digit [53, 55, 55, 55, 55, 48] = [53, 55, 55, 55, 55, 48]"
    by (simp add: is_digit_def)
  have v: "normalizeToken ascii_upper (js ''s7-7.7 7o'') = js ''577770''"
    unfolding normalizeToken_def Let_def r s
    by (simp only: a b c d e f g h list.distinct if_False)
  have dg: "list_all is_digit (js ''577770'')"
    unfolding s by (simp add: is_digit_def)
  have i1: "normalizeToken ascii_upper (normalizeToken ascii_upper (js ''s7-7.7 7o''))
      = normalizeToken ascii_upper (js ''s7-7.7 7o'')"
    using normalizeToken_idempotent [OF ascii_upper_fixes_digits, of "js ''s7-7.7 7o''"] by blast
  have i2: "normalizeToken ascii_upper (js ''577770'') = js ''577770''"
    using dg normalizeToken_idempotent [OF ascii_upper_fixes_digits, of "js ''577770''"] by blast
  from ascii_upper_fixes_digits v i1 dg i2 show ?thesis by blast
qed

section \<open>Properties: no exception, every candidate recorded\<close>
















section \<open>Properties of the locator\<close>

lemma first_some_cases:
  "first_some f xs = Some y \<Longrightarrow> \<exists>x \<in> set xs. f x = Some y"
  by (induction xs) (auto split: option.splits)

lemma well_formed_direct: "try_direct h sr = Some r \<Longrightarrow> well_formed h r"
  by (auto simp: try_direct_def well_formed_def Let_def getCRType_def isValidCR_def
      split: option.splits if_splits)

lemma matches_H01_digits: "matches_H01 v \<Longrightarrow> list_all is_digit v"
  by (auto simp: matches_H01_def is_digit_def split: list.splits)

lemma matches_EP1_digits: "matches_EP1 v \<Longrightarrow> list_all is_digit v"
  by (auto simp: matches_EP1_def is_digit_def split: list.splits)

lemma getCRType_H01: "matches_H01 v \<Longrightarrow> getCRType v = H01"
  by (auto simp: getCRType_def matches_H01_def matches_EP1_def split: list.splits)

lemma getCRType_EP1: "matches_EP1 v \<Longrightarrow> getCRType v = EP1"
  by (simp add: getCRType_def)

lemma type_of_H01:
  assumes "fixes_digits up" "matches_H01 raw"
  shows "getCRType (normalizeToken up raw) = H01"
proof -
  have "normalizeToken up raw = raw"
    using assms(1) matches_H01_digits [OF assms(2)] by (rule normalizeToken_digits_in)
  with assms(2) show ?thesis by (simp add: getCRType_H01)
qed

lemma type_of_EP1:
  assumes "fixes_digits up" "matches_EP1 raw"
  shows "getCRType (normalizeToken up raw) = EP1"
proof -
  have "normalizeToken up raw = raw"
    using assms(1) matches_EP1_digits [OF assms(2)] by (rule normalizeToken_digits_in)
  with assms(2) show ?thesis by (simp add: getCRType_EP1)
qed

lemma number_groups_exec_H01:
  "number_groups h \<Longrightarrow> exec h (h01_word fl) s = Some m \<Longrightarrow> matches_H01 (m_1 m)"
  unfolding number_groups_def by blast

lemma number_groups_exec_EP1:
  "number_groups h \<Longrightarrow> exec h (ep1_word fl) s = Some m \<Longrightarrow> matches_EP1 (m_1 m)"
  unfolding number_groups_def by blast

lemma number_groups_all_H01:
  "number_groups h \<Longrightarrow> m \<in> set (matchAll h (h01_word fl) s) \<Longrightarrow> matches_H01 (m_1 m)"
  unfolding number_groups_def by blast

lemma number_groups_all_EP1:
  "number_groups h \<Longrightarrow> m \<in> set (matchAll h (ep1_word fl) s) \<Longrightarrow> matches_EP1 (m_1 m)"
  unfolding number_groups_def by blast

lemma well_formed_near_H01:
  assumes "near_number h (h01_word fl) H01 postal w e = Some r"
  shows "well_formed h r"
proof (cases "exec h (h01_word fl) w")
  case None
  with assms show ?thesis by (simp add: near_number_def)
next
  case (Some m)
  let ?norm = "normalizeToken (toUpperCase h) (m_1 m)"
  from assms Some have v: "isValidCR ?norm"
    and r: "r = \<lparr> cm_value = ?norm, cm_type = H01, cm_raw = m_1 m, cm_index = e + m_index m,
                  cm_source = near_anchor, cm_confidence = conf_high \<rparr>"
    by (auto simp: near_number_def Let_def split: if_splits)
  have "getCRType ?norm = H01" if "fixes_digits (toUpperCase h)" "number_groups h"
    using that(1) number_groups_exec_H01 [OF that(2) Some] by (rule type_of_H01)
  with v show ?thesis by (simp add: well_formed_def r)
qed

lemma well_formed_near_EP1:
  assumes "near_number h (ep1_word fl) EP1 postal w e = Some r"
  shows "well_formed h r"
proof (cases "exec h (ep1_word fl) w")
  case None
  with assms show ?thesis by (simp add: near_number_def)
next
  case (Some m)
  let ?norm = "normalizeToken (toUpperCase h) (m_1 m)"
  from assms Some have v: "isValidCR ?norm"
    and r: "r = \<lparr> cm_value = ?norm, cm_type = EP1, cm_raw = m_1 m, cm_index = e + m_index m,
                  cm_source = near_anchor, cm_confidence = conf_high \<rparr>"
    by (auto simp: near_number_def Let_def split: if_splits)
  have "getCRType ?norm = EP1" if "fixes_digits (toUpperCase h)" "number_groups h"
    using that(1) number_groups_exec_EP1 [OF that(2) Some] by (rule type_of_EP1)
  with v show ?thesis by (simp add: well_formed_def r)
qed

lemma well_formed_strict:
  assumes "try_strict h nt a = Some r"
  shows "well_formed h r"
proof (cases "exec h a nt")
  case None
  with assms show ?thesis by (simp add: try_strict_def)
next
  case (Some am)
  let ?e = "m_index am + length (m_0 am)"
  let ?w = "substring nt ?e (min (?e + 50) (length nt))"
  show ?thesis
  proof (cases "near_number h (h01_word []) H01 (\<lambda>_. False) ?w ?e")
    case None
    with assms Some have "near_number h (ep1_word []) EP1 (\<lambda>_. False) ?w ?e = Some r"
      by (simp add: try_strict_def Let_def)
    then show ?thesis by (rule well_formed_near_EP1)
  next
    case (Some r')
    with assms \<open>exec h a nt = Some am\<close> have "r' = r"
      by (simp add: try_strict_def Let_def)
    with Some show ?thesis using well_formed_near_H01 by blast
  qed
qed

lemma well_formed_broad:
  assumes "try_broad h nt a = Some r"
  shows "well_formed h r"
proof (cases "exec h a nt")
  case None
  with assms show ?thesis by (simp add: try_broad_def)
next
  case (Some am)
  let ?e = "m_index am + length (m_0 am)"
  let ?w = "substring nt ?e (min (?e + 100) (length nt))"
  let ?postal = "\<lambda>i. test h postal_after (substring nt (i + 6) (i + 56))"
  show ?thesis
  proof (cases "near_number h (h01_word []) H01 ?postal ?w ?e")
    case None
    with assms Some have "near_number h (ep1_word []) EP1 (\<lambda>_. False) ?w ?e = Some r"
      by (simp add: try_broad_def Let_def)
    then show ?thesis by (rule well_formed_near_EP1)
  next
    case (Some r')
    with assms \<open>exec h a nt = Some am\<close> have "r' = r"
      by (simp add: try_broad_def Let_def)
    with Some show ?thesis using well_formed_near_H01 by blast
  qed
qed

lemma well_formed_h01:
  assumes "m \<in> set (matchAll h (h01_word fl) s)" "h01_candidate h nt m = Some r"
  shows "well_formed h r"
proof -
  let ?norm = "normalizeToken (toUpperCase h) (m_1 m)"
  from assms(2) have v: "isValidCR ?norm"
    and r: "cm_value r = ?norm" "cm_type r = H01" "cm_raw r = m_1 m"
    by (auto simp: h01_candidate_def Let_def split: if_splits)
  have "getCRType ?norm = H01" if "fixes_digits (toUpperCase h)" "number_groups h"
    using that(1) number_groups_all_H01 [OF that(2) assms(1)] by (rule type_of_H01)
  with v show ?thesis by (simp add: well_formed_def r)
qed

lemma well_formed_ep1:
  assumes "m \<in> set (matchAll h (ep1_word fl) s)" "ep1_candidate h nt m = Some r"
  shows "well_formed h r"
proof -
  let ?norm = "normalizeToken (toUpperCase h) (m_1 m)"
  from assms(2) have v: "isValidCR ?norm"
    and r: "cm_value r = ?norm" "cm_type r = EP1" "cm_raw r = m_1 m"
    by (auto simp: ep1_candidate_def Let_def split: if_splits)
  have "getCRType ?norm = EP1" if "fixes_digits (toUpperCase h)" "number_groups h"
    using that(1) number_groups_all_EP1 [OF that(2) assms(1)] by (rule type_of_EP1)
  with v show ?thesis by (simp add: well_formed_def r)
qed

lemma map_filter_all:
  assumes "\<And>x y. x \<in> set xs \<Longrightarrow> f x = Some y \<Longrightarrow> P y"
  shows "list_all P (List.map_filter f xs)"
  using assms by (auto simp: List.map_filter_def list_all_iff)

lemma hd_filter_all: "list_all P xs \<Longrightarrow> filter Q xs \<noteq> [] \<Longrightarrow> P (hd (filter Q xs))"
proof -
  assume a: "list_all P xs" and b: "filter Q xs \<noteq> []"
  from b have "hd (filter Q xs) \<in> set (filter Q xs)" by (rule hd_in_set)
  with a show ?thesis by (simp add: list_all_iff)
qed

lemma hd_all: "list_all P xs \<Longrightarrow> xs \<noteq> [] \<Longrightarrow> P (hd xs)"
  by (cases xs) simp_all

lemma global_stage_ok:
  "length (global_stage h nt) \<le> 1 \<and> list_all (well_formed h) (global_stage h nt)"
proof -
  let ?c1 = "List.map_filter (h01_candidate h nt) (matchAll h (h01_word ''g'') nt)"
  let ?c2 = "List.map_filter (ep1_candidate h nt) (matchAll h (ep1_word ''g'') nt)"
  let ?med = "\<lambda>c. cm_confidence c = conf_medium"
  let ?gc = "if ?c1 = [] then ?c2 else ?c1"
  have c1: "list_all (well_formed h) ?c1"
    by (rule map_filter_all) (rule well_formed_h01)
  have c2: "list_all (well_formed h) ?c2"
    by (rule map_filter_all) (rule well_formed_ep1)
  have gc: "list_all (well_formed h) ?gc"
    using c1 c2 by simp
  show ?thesis
  proof (cases "filter ?med ?c1 \<noteq> []")
    case True
    then have "global_stage h nt = [hd (filter ?med ?c1)]"
      by (simp add: global_stage_def Let_def)
    moreover have "well_formed h (hd (filter ?med ?c1))"
      using c1 True by (rule hd_filter_all)
    ultimately show ?thesis by simp
  next
    case f1: False
    show ?thesis
    proof (cases "?gc \<noteq> []")
      case False
      with f1 have "global_stage h nt = []"
        by (simp add: global_stage_def Let_def)
      then show ?thesis by simp
    next
      case g: True
      show ?thesis
      proof (cases "filter ?med ?gc \<noteq> []")
        case True
        with f1 g have "global_stage h nt = [hd (filter ?med ?gc)]"
          by (simp add: global_stage_def Let_def)
        moreover have "well_formed h (hd (filter ?med ?gc))"
          using gc True by (rule hd_filter_all)
        ultimately show ?thesis by simp
      next
        case False
        with f1 g have "global_stage h nt = [hd ?gc]"
          by (simp add: global_stage_def Let_def)
        moreover have "well_formed h (hd ?gc)"
          using gc g by (rule hd_all)
        ultimately show ?thesis by simp
      qed
    qed
  qed
qed

lemma stage_chain_ok:
  assumes "\<And>r. a = Some r \<Longrightarrow> P r" "\<And>r. b = Some r \<Longrightarrow> P r" "\<And>r. c = Some r \<Longrightarrow> P r"
    and "length g \<le> 1 \<and> list_all P g"
  shows "length (case a of Some r \<Rightarrow> [r] | None \<Rightarrow>
                   (case b of Some r \<Rightarrow> [r] | None \<Rightarrow> (case c of Some r \<Rightarrow> [r] | None \<Rightarrow> g))) \<le> 1
       \<and> list_all P (case a of Some r \<Rightarrow> [r] | None \<Rightarrow>
                   (case b of Some r \<Rightarrow> [r] | None \<Rightarrow> (case c of Some r \<Rightarrow> [r] | None \<Rightarrow> g)))"
  using assms by (cases a; cases b; cases c) simp_all

lemma first_some_ok:
  assumes "\<And>x r. f x = Some r \<Longrightarrow> P r" and "first_some f xs = Some r"
  shows "P r"
proof -
  from first_some_cases [OF assms(2)] obtain x where "f x = Some r"
    by blast
  then show ?thesis by (rule assms(1))
qed

lemma findCRsOnText_unfold:
  assumes "t \<noteq> []"
  shows "findCRsOnText h t = (case first_some (try_direct h) (List.product [normalizeOCRText t, t] directPatterns) of Some r \<Rightarrow> [r] | None \<Rightarrow>
                   (case first_some (try_strict h (normalizeOCRText t)) strictAnchors of Some r \<Rightarrow> [r] | None \<Rightarrow> (case first_some (try_broad h (normalizeOCRText t)) broadAnchors of Some r \<Rightarrow> [r] | None \<Rightarrow> global_stage h (normalizeOCRText t))))"
    unfolding findCRsOnText_def Let_def using assms by (simp only: if_False)

lemma findCRsOnText_ok:
  "length (findCRsOnText h t) \<le> 1 \<and> list_all (well_formed h) (findCRsOnText h t)"
proof (cases "t = []")
  case True
  then show ?thesis by (simp add: findCRsOnText_def)
next
  case False
  show ?thesis
    unfolding findCRsOnText_unfold [OF False]
  proof (rule stage_chain_ok)
    fix r
    assume "first_some (try_direct h) (List.product [normalizeOCRText t, t] directPatterns) = Some r"
    then show "well_formed h r" by (rule first_some_ok [rotated]) (rule well_formed_direct)
  next
    fix r
    assume "first_some (try_strict h (normalizeOCRText t)) strictAnchors = Some r"
    then show "well_formed h r" by (rule first_some_ok [rotated]) (rule well_formed_strict)
  next
    fix r
    assume "first_some (try_broad h (normalizeOCRText t)) broadAnchors = Some r"
    then show "well_formed h r" by (rule first_some_ok [rotated]) (rule well_formed_broad)
  next
    show "length (global_stage h (normalizeOCRText t)) \<le> 1 \<and> list_all (well_formed h) (global_stage h (normalizeOCRText t))"
      by (rule global_stage_ok)
  qed
qed

text \<open>
  Claim C5. Whatever the text, and whatever the RegExp engine answers, the function
  returns at most one match, and none for the empty text. The value of a returned match
  is the normalization of its raw token and has the shape \<open>1\<close> plus seven digits or \<open>5\<close>
  plus five digits, so that \<^verbatim>\<open>isValidCR\<close> accepts it and a value of neither shape is never
  returned; normalizing the value again leaves it as it is, so that it has one of the two
  shapes after normalization too. The type of a match is never \<open>UNKNOWN\<close>, and with an
  engine that follows the two number patterns it is the type of the value: \<open>EP1\<close> for \<open>1\<close>
  plus seven digits, \<open>H01\<close> for \<open>5\<close> plus five digits.
\<close>

theorem findCRsOnText_at_most_one_valid:
  "length (findCRsOnText h t) \<le> 1
   \<and> findCRsOnText h [] = []
   \<and> (\<forall>r \<in> set (findCRsOnText h t).
        cm_value r = normalizeToken (toUpperCase h) (cm_raw r)
        \<and> isValidCR (cm_value r)
        \<and> (matches_EP1 (cm_value r) \<or> matches_H01 (cm_value r))
        \<and> cm_type r \<noteq> UNKNOWN
        \<and> (fixes_digits (toUpperCase h) \<longrightarrow>
              normalizeToken (toUpperCase h) (cm_value r) = cm_value r
              \<and> isValidCR (normalizeToken (toUpperCase h) (cm_value r)))
        \<and> (fixes_digits (toUpperCase h) \<and> number_groups h \<longrightarrow>
              cm_type r = getCRType (cm_value r)
              \<and> (cm_type r = EP1 \<longleftrightarrow> matches_EP1 (cm_value r))
              \<and> (cm_type r = H01 \<longleftrightarrow> matches_H01 (cm_value r))))"
proof -
  have ok: "length (findCRsOnText h t) \<le> 1" "list_all (well_formed h) (findCRsOnText h t)"
    using findCRsOnText_ok [of h t] by simp_all
  have e: "findCRsOnText h [] = []"
    by (simp add: findCRsOnText_def)
  have "cm_value r = normalizeToken (toUpperCase h) (cm_raw r)
        \<and> isValidCR (cm_value r)
        \<and> (matches_EP1 (cm_value r) \<or> matches_H01 (cm_value r))
        \<and> cm_type r \<noteq> UNKNOWN
        \<and> (fixes_digits (toUpperCase h) \<longrightarrow>
              normalizeToken (toUpperCase h) (cm_value r) = cm_value r
              \<and> isValidCR (normalizeToken (toUpperCase h) (cm_value r)))
        \<and> (fixes_digits (toUpperCase h) \<and> number_groups h \<longrightarrow>
              cm_type r = getCRType (cm_value r)
              \<and> (cm_type r = EP1 \<longleftrightarrow> matches_EP1 (cm_value r))
              \<and> (cm_type r = H01 \<longleftrightarrow> matches_H01 (cm_value r)))"
    if "r \<in> set (findCRsOnText h t)" for r
  proof -
    from that ok(2) have w: "well_formed h r" by (simp add: list_all_iff)
    then have v: "cm_value r = normalizeToken (toUpperCase h) (cm_raw r)" "isValidCR (cm_value r)"
      "cm_type r \<noteq> UNKNOWN"
      unfolding well_formed_def by blast+
    from w have ty: "cm_type r = getCRType (cm_value r)"
      if "fixes_digits (toUpperCase h)" "number_groups h"
      using that unfolding well_formed_def by blast
    have dig: "list_all is_digit (cm_value r)"
      unfolding v(1) by (rule normalizeToken_digits_out)
    have idem: "normalizeToken (toUpperCase h) (cm_value r) = cm_value r"
      if "fixes_digits (toUpperCase h)"
      using that dig by (rule normalizeToken_digits_in)
    have shape: "(getCRType (cm_value r) = EP1 \<longleftrightarrow> matches_EP1 (cm_value r))
               \<and> (getCRType (cm_value r) = H01 \<longleftrightarrow> matches_H01 (cm_value r))"
      by (auto simp: getCRType_def matches_H01_def matches_EP1_def split: list.splits)
    from v idem ty shape show ?thesis by (simp add: isValidCR_def)
  qed
  with ok(1) e show ?thesis by blast
qed

lemma first_some_None:
  assumes "\<And>x. x \<in> set xs \<Longrightarrow> f x = None"
  shows "first_some f xs = None"
  using assms by (induction xs) simp_all

lemma sample_digits: "list_all is_digit (js ''577770'')"
  by (simp add: js_def is_digit_def)

lemma sample_nonempty: "js ''577770'' \<noteq> []"
  by (simp add: js_def)

lemma sample_H01: "matches_H01 (js ''577770'')"
  by (simp add: js_def matches_H01_def is_digit_def)

lemma sample_normalized: "normalizeToken ascii_upper (js ''577770'') = js ''577770''"
  using ascii_upper_fixes_digits sample_digits by (rule normalizeToken_digits_in)

lemma table_host_simps:
  "toUpperCase table_host = ascii_upper"
  "exec table_host (hd directPatterns) receipt_text
     = Some \<lparr> m_index = 0, m_0 = receipt_text, m_1 = js ''577770'' \<rparr>"
  "matchAll table_host (h01_word ''g'') bare_text
     = [\<lparr> m_index = 4, m_0 = js ''577770'', m_1 = js ''577770'' \<rparr>]"
  by (simp_all add: table_host_def)

lemma table_host_exec_None: "s \<noteq> receipt_text \<Longrightarrow> exec table_host r s = None"
  by (simp add: table_host_def)

lemma table_host_test: "s \<noteq> receipt_text \<Longrightarrow> \<not> test table_host r s"
  by (simp add: test_def table_host_exec_None)

lemma table_host_groups: "number_groups table_host"
proof -
  have a: "h01_word fl \<noteq> hd directPatterns" for fl
    by (simp add: h01_word_def directPatterns_def regexp_of_def rx_def)
  have b: "ep1_word fl \<noteq> hd directPatterns" for fl
    by (simp add: ep1_word_def directPatterns_def regexp_of_def rx_def)
  have c: "ep1_word fl \<noteq> h01_word ''g''" for fl
    by (simp add: ep1_word_def h01_word_def regexp_of_def rx_def)
  show ?thesis
    unfolding number_groups_def
    by (auto simp: table_host_def a b c sample_H01 split: if_splits)
qed

lemma receipt_text_normalized: "normalizeOCRText receipt_text = receipt_text"
  by (simp add: normalizeOCRText_def receipt_text_def js_def cr_to_lf_def is_digit_def is_space_def)

lemma bare_text_normalized: "normalizeOCRText bare_text = bare_text"
  by (simp add: normalizeOCRText_def bare_text_def js_def cr_to_lf_def is_digit_def is_space_def)

lemma receipt_text_found:
  "findCRsOnText table_host receipt_text
     = [\<lparr> cm_value = js ''577770'', cm_type = H01, cm_raw = js ''577770'', cm_index = 0,
          cm_source = direct_anchor, cm_confidence = conf_high \<rparr>]"
proof -
  have ne: "receipt_text \<noteq> []"
    by (simp add: receipt_text_def js_def)
  have d: "try_direct table_host (receipt_text, hd directPatterns)
             = Some \<lparr> cm_value = js ''577770'', cm_type = H01, cm_raw = js ''577770'', cm_index = 0,
                      cm_source = direct_anchor, cm_confidence = conf_high \<rparr>"
    using sample_H01
    by (simp add: try_direct_def Let_def table_host_simps sample_normalized isValidCR_def
        getCRType_H01 sample_nonempty)
  have p: "List.product [receipt_text, receipt_text] directPatterns
             = (receipt_text, hd directPatterns)
               # map (Pair receipt_text) (tl directPatterns)
               @ List.product [receipt_text] directPatterns"
    by (simp add: directPatterns_def)
  show ?thesis
    unfolding findCRsOnText_unfold [OF ne] receipt_text_normalized p
    by (simp add: d)
qed

lemma bare_text_found:
  "findCRsOnText table_host bare_text
     = [\<lparr> cm_value = js ''577770'', cm_type = H01, cm_raw = js ''577770'', cm_index = 4,
          cm_source = global_search, cm_confidence = conf_low \<rparr>]"
proof -
  have ne: "bare_text \<noteq> []"
    by (simp add: bare_text_def js_def)
  have len: "length bare_text = 10" "length receipt_text = 37"
    by (simp_all add: bare_text_def receipt_text_def js_def)
  have short: "s \<noteq> receipt_text" if "length s \<le> 10" for s
    using that len(2) by auto
  have sub: "length (substring bare_text i j) \<le> 10" for i j
    unfolding substring_def Let_def length_take length_drop len(1) by arith
  have dif: "bare_text \<noteq> receipt_text"
    by (rule short) (simp add: len)
  have t: "\<not> test table_host r (substring bare_text i j)" for r i j
    by (rule table_host_test, rule short, rule sub)
  have e: "exec table_host r (substring bare_text i j) = None" for r i j
    by (rule table_host_exec_None, rule short, rule sub)
  have a: "first_some (try_direct table_host) (List.product [bare_text, bare_text] directPatterns) = None"
    by (rule first_some_None) (auto simp: try_direct_def table_host_exec_None [OF dif])
  have b: "first_some (try_strict table_host bare_text) strictAnchors = None"
    by (rule first_some_None) (simp add: try_strict_def table_host_exec_None [OF dif])
  have c: "first_some (try_broad table_host bare_text) broadAnchors = None"
    by (rule first_some_None) (simp add: try_broad_def table_host_exec_None [OF dif])
  have x: "\<not> isInExclusionContext table_host bare_text 4 (js ''577770'')"
    by (simp add: isInExclusionContext_def Let_def t list_ex_iff)
  have h: "h01_candidate table_host bare_text \<lparr> m_index = 4, m_0 = js ''577770'', m_1 = js ''577770'' \<rparr>
             = Some \<lparr> cm_value = js ''577770'', cm_type = H01, cm_raw = js ''577770'', cm_index = 4,
                      cm_source = global_search, cm_confidence = conf_low \<rparr>"
    using sample_H01
    by (simp add: h01_candidate_def Let_def table_host_simps sample_normalized isValidCR_def
        x t hasAnchorNearby_def)
  have g: "global_stage table_host bare_text
             = [\<lparr> cm_value = js ''577770'', cm_type = H01, cm_raw = js ''577770'', cm_index = 4,
                  cm_source = global_search, cm_confidence = conf_low \<rparr>]"
    by (simp add: global_stage_def Let_def table_host_simps List.map_filter_def h)
  show ?thesis
    unfolding findCRsOnText_unfold [OF ne] bare_text_normalized a b c
    by (simp add: g)
qed

theorem findCRsOnText_at_most_one_valid_witness:
  "findCRsOnText table_host receipt_text
     = [\<lparr> cm_value = js ''577770'', cm_type = H01, cm_raw = js ''577770'', cm_index = 0,
          cm_source = direct_anchor, cm_confidence = conf_high \<rparr>]
   \<and> findCRsOnText table_host bare_text
     = [\<lparr> cm_value = js ''577770'', cm_type = H01, cm_raw = js ''577770'', cm_index = 4,
          cm_source = global_search, cm_confidence = conf_low \<rparr>]
   \<and> fixes_digits (toUpperCase table_host) \<and> number_groups table_host
   \<and> length (findCRsOnText table_host receipt_text) \<le> 1
   \<and> isValidCR (js ''577770'') \<and> matches_H01 (js ''577770'')
   \<and> normalizeToken (toUpperCase table_host) (js ''577770'') = js ''577770''
   \<and> getCRType (js ''577770'') = H01"
  using findCRsOnText_at_most_one_valid [of table_host receipt_text]
    table_host_groups ascii_upper_fixes_digits
  by (simp add: receipt_text_found bare_text_found table_host_simps)

end
